theory Spec2Isabelle
  imports Main "HOL-Library.List_Lexorder"
begin

section \<open>Outcomes of a C call\<close>

text \<open>
  A call of the program either returns a value, leaves the process through
  \<^verbatim>\<open>exit(EXIT_FAILURE)\<close> after printing a diagnostic on the error stream, has no
  defined behaviour (an access outside an array, a read of a cell that was never
  written), or is still running when the recursion budget of the model is used up.
\<close>

datatype diagnostic =
    IntList_negative_length       \<comment> \<open>IntList error: negative length given for a list\<close>
  | IntList_malloc_failed         \<comment> \<open>IntList error: malloc failed\<close>
  | IntListRead_negative_length   \<comment> \<open>IntListRead error: negative length given for a list\<close>
  | Binomial_bad_arguments        \<comment> \<open>Binomial error: n<k or k<0\<close>
  | Combinations_bad_arguments    \<comment> \<open>Combinations error: n<k or k<0\<close>
  | Combinations_malloc_failed    \<comment> \<open>Combinations error: malloc failed\<close>
  | TransversalProperty_malloc_failed \<comment> \<open>TransversalProperty error: malloc failed\<close>
  | Bad_input                     \<comment> \<open>bad input: must have 2<=k<=n\<close>
  | Cosetreps_malloc_failed       \<comment> \<open>making cosetreps error: malloc failed\<close>
  | Main_malloc_failed            \<comment> \<open>main error: malloc failed\<close>

datatype 'a outcome =
    Returns 'a
  | Exits diagnostic
  | Undefined
  | OutOfFuel

fun obind :: "'a outcome \<Rightarrow> ('a \<Rightarrow> 'b outcome) \<Rightarrow> 'b outcome" where
  "obind (Returns v) f = f v"
| "obind (Exits d) f = Exits d"
| "obind Undefined f = Undefined"
| "obind OutOfFuel f = OutOfFuel"

lemma obind_cong [fundef_cong]:
  "m = m' \<Longrightarrow> (\<And>v. m' = Returns v \<Longrightarrow> f v = f' v) \<Longrightarrow> obind m f = obind m' f'"
  by (cases m') auto

lemma obind_eq_Returns:
  "obind m f = Returns y \<longleftrightarrow> (\<exists>v. m = Returns v \<and> f v = Returns y)"
  by (cases m) auto

section \<open>The C types\<close>

text \<open>
  \<^verbatim>\<open>int\<close> is the 32-bit two's complement integer of the usual platforms. Values are
  kept as mathematical integers; where a product can leave the range (in
  \<^verbatim>\<open>Binomial\<close>, already at \<open>n = 30\<close>) the wrap-around is written out. The counters
  and index arithmetic of \<^verbatim>\<open>Combinations\<close> and \<^verbatim>\<open>TransversalProperty\<close> stay below
  \<open>2 * n * k\<close>, far inside the range for every table that fits in memory, and are
  left unwrapped.
\<close>

definition INT_MAX :: int where
  "INT_MAX = 2147483647"

definition wrap_int :: "int \<Rightarrow> int" where
  "wrap_int x = (x + 2147483648) mod 4294967296 - 2147483648"

definition c_div :: "int \<Rightarrow> int \<Rightarrow> int" where
  \<comment> \<open>C division truncates towards zero\<close>
  "c_div a b = sgn a * sgn b * (\<bar>a\<bar> div \<bar>b\<bar>)"

definition unsigned :: "int \<Rightarrow> nat" where
  \<comment> \<open>the cast \<^verbatim>\<open>(unsigned)\<close>\<close>
  "unsigned x = nat (x mod 4294967296)"

definition sizeof_int :: nat where "sizeof_int = 4"
definition sizeof_bool :: nat where "sizeof_bool = 1"
definition sizeof_ptr :: nat where "sizeof_ptr = 8"

text \<open>
  An integer list is the array itself: cell 0 holds the length, cells 1, 2, ... the
  elements. \<^verbatim>\<open>malloc\<close> is a parameter of the model: \<open>malloc s\<close> tells whether a
  request for \<open>s\<close> bytes succeeds. A fresh cell holds 0 in the model; in C it is
  uninitialised, and every path proved below writes a cell before reading it.
\<close>

type_synonym intlist = "int list"

definition Length :: "intlist \<Rightarrow> int" where
  "Length x = x ! 0"

definition SetLength :: "intlist \<Rightarrow> int \<Rightarrow> intlist" where
  "SetLength x len = x[0 := len]"

definition IntList :: "(nat \<Rightarrow> bool) \<Rightarrow> int \<Rightarrow> intlist outcome" where
  "IntList malloc len =
     (if len < 0 then Exits IntList_negative_length
      else if \<not> malloc (unsigned (len + 1) * sizeof_int) then Exits IntList_malloc_failed
      else Returns (SetLength (replicate (nat len + 1) 0) len))"

section \<open>Binomial\<close>

function Binomial :: "int \<Rightarrow> int \<Rightarrow> int outcome" where
  "Binomial n k =
     (if n < k \<or> k < 0 then Exits Binomial_bad_arguments
      else if k = 0 then Returns 1
      else obind (Binomial (n - 1) (k - 1)) (\<lambda>b. Returns (c_div (wrap_int (b * n)) k)))"
  by pat_completeness auto
termination
  by (relation "measure (\<lambda>(n, k). nat k)") auto

declare Binomial.simps [simp del]

section \<open>Array cells\<close>

text \<open>
  \<open>rd x i\<close> is the read \<^verbatim>\<open>x[i]\<close> of an integer list and \<open>wr x i v\<close> the write
  \<^verbatim>\<open>x[i]=v\<close>; cell 0 (the length) is an ordinary cell. The boolean arrays
  \<^verbatim>\<open>R\<close>, \<^verbatim>\<open>Rnew\<close> and \<^verbatim>\<open>covered\<close> and the tables of integer lists
  (\<^verbatim>\<open>comb\<close>, \<^verbatim>\<open>cosetreps\<close>) are used from cell 1 on: their cell 0 is never
  written, so a read of it has no defined value. An index outside the array has no
  defined behaviour either.
\<close>

definition rd :: "intlist \<Rightarrow> int \<Rightarrow> int outcome" where
  "rd x i = (if 0 \<le> i \<and> nat i < length x then Returns (x ! nat i) else Undefined)"

definition wr :: "intlist \<Rightarrow> int \<Rightarrow> int \<Rightarrow> intlist outcome" where
  "wr x i v = (if 0 \<le> i \<and> nat i < length x then Returns (x[nat i := v]) else Undefined)"

definition rdb :: "bool list \<Rightarrow> int \<Rightarrow> bool outcome" where
  "rdb x i = (if 1 \<le> i \<and> nat i < length x then Returns (x ! nat i) else Undefined)"

definition wrb :: "bool list \<Rightarrow> int \<Rightarrow> bool \<Rightarrow> bool list outcome" where
  "wrb x i v = (if 1 \<le> i \<and> nat i < length x then Returns (x[nat i := v]) else Undefined)"

definition row :: "intlist list \<Rightarrow> int \<Rightarrow> intlist outcome" where
  "row t i = (if 1 \<le> i \<and> nat i < length t then Returns (t ! nat i) else Undefined)"

section \<open>Combinations\<close>

text \<open>
  The rows are made by \<^verbatim>\<open>IntList(k)\<close>, so they have the cells \<open>0..k\<close>, and the
  loops below index them with \<open>1 \<le> jj \<le> k\<close> only.
\<close>

function first_loop :: "int \<Rightarrow> int \<Rightarrow> intlist \<Rightarrow> intlist" where
  \<comment> \<open>\<^verbatim>\<open>for(j=1;j<=k;j++) comb[1][j]=j;\<close>\<close>
  "first_loop k j c = (if j \<le> k then first_loop k (j + 1) (c[nat j := j]) else c)"
  by pat_completeness auto
termination
  by (relation "measure (\<lambda>(k, j, c). nat (k + 1 - j))") auto

function copy_loop :: "intlist \<Rightarrow> int \<Rightarrow> int \<Rightarrow> intlist \<Rightarrow> int \<times> intlist" where
  \<comment> \<open>\<^verbatim>\<open>for(jj=1;jj<j;jj++) comb[i][jj]=comb[i-1][jj];\<close> and the value of \<^verbatim>\<open>jj\<close> after it\<close>
  "copy_loop prev j jj c =
     (if jj < j then copy_loop prev j (jj + 1) (c[nat jj := prev ! nat jj]) else (jj, c))"
  by pat_completeness auto
termination
  by (relation "measure (\<lambda>(prev, j, jj, c). nat (j - jj))") auto

function fill_loop :: "int \<Rightarrow> int \<Rightarrow> intlist \<Rightarrow> intlist" where
  \<comment> \<open>\<^verbatim>\<open>for(...;jj<=k;jj++) comb[i][jj]=comb[i][jj-1]+1;\<close>\<close>
  "fill_loop k jj c =
     (if jj \<le> k then fill_loop k (jj + 1) (c[nat jj := c ! nat (jj - 1) + 1]) else c)"
  by pat_completeness auto
termination
  by (relation "measure (\<lambda>(k, jj, c). nat (k + 1 - jj))") auto

function successor_loop :: "int \<Rightarrow> int \<Rightarrow> intlist \<Rightarrow> int \<Rightarrow> intlist \<Rightarrow> intlist" where
  \<comment> \<open>\<^verbatim>\<open>for(j=k;j>=1;j--)\<close>: the row \<open>c\<close> is \<^verbatim>\<open>comb[i]\<close>, \<open>prev\<close> is \<^verbatim>\<open>comb[i-1]\<close>\<close>
  "successor_loop n k prev j c =
     (if j \<ge> 1 then
        if prev ! nat j < n - (k - j) then
          (case copy_loop prev j 1 c of
             (jj, c1) \<Rightarrow> fill_loop k (jj + 1) (c1[nat j := prev ! nat j + 1]))
        else successor_loop n k prev (j - 1) c
      else c)"
  by pat_completeness auto
termination
  by (relation "measure (\<lambda>(n, k, prev, j, c). nat j)") auto

function comb_loop ::
  "(nat \<Rightarrow> bool) \<Rightarrow> int \<Rightarrow> int \<Rightarrow> int \<Rightarrow> int \<Rightarrow> intlist list \<Rightarrow> intlist list outcome" where
  \<comment> \<open>\<^verbatim>\<open>for(i=2;i<=binom;i++)\<close>: \<open>comb\<close> holds the cells \<open>0..i-1\<close> written so far\<close>
  "comb_loop malloc n k binom i comb =
     (if i \<le> binom then
        obind (IntList malloc k) (\<lambda>c.
          comb_loop malloc n k binom (i + 1)
            (comb @ [successor_loop n k (comb ! nat (i - 1)) k c]))
      else Returns comb)"
  by pat_completeness auto
termination
  by (relation "measure (\<lambda>(malloc, n, k, binom, i, comb). nat (binom + 1 - i))") auto

definition Combinations :: "(nat \<Rightarrow> bool) \<Rightarrow> int \<Rightarrow> int \<Rightarrow> intlist list outcome" where
  "Combinations malloc n k =
     (if n < k \<or> k < 0 then Exits Combinations_bad_arguments
      else obind (Binomial n k) (\<lambda>binom.
        if \<not> malloc (unsigned (binom + 1) * sizeof_ptr) then Exits Combinations_malloc_failed
        else if unsigned (binom + 1) < 2 then Undefined
        else obind (IntList malloc k) (\<lambda>c.
          comb_loop malloc n k binom 2 [[], first_loop k 1 c])))"

declare first_loop.simps [simp del] copy_loop.simps [simp del] fill_loop.simps [simp del]
  successor_loop.simps [simp del] comb_loop.simps [simp del]

section \<open>TransversalProperty\<close>

function count_loop ::
  "int \<Rightarrow> int \<Rightarrow> intlist \<Rightarrow> bool list \<Rightarrow> int \<Rightarrow> int \<Rightarrow> bool list \<Rightarrow> int \<Rightarrow>
   (int \<times> bool list \<times> int) outcome" where
  \<comment> \<open>the first loop: counts the points of the parts below \<open>k\<close> and copies \<^verbatim>\<open>R\<close>\<close>
  "count_loop n k A R i Acount Rnew Rnewcount =
     (if i \<le> n then
        obind (rd A i) (\<lambda>a.
        obind (rdb R i) (\<lambda>b.
        obind (wrb Rnew i b) (\<lambda>Rnew1.
          count_loop n k A R (i + 1)
            (if a < k then Acount + 1 else Acount) Rnew1
            (if b then Rnewcount + 1 else Rnewcount))))
      else Returns (Acount, Rnew, Rnewcount))"
  by pat_completeness auto
termination
  by (relation "measure (\<lambda>(n, k, A, R, i, Acount, Rnew, Rnewcount). nat (n + 1 - i))") auto

function part_loop ::
  "int \<Rightarrow> intlist \<Rightarrow> intlist \<Rightarrow> intlist \<Rightarrow> int \<Rightarrow> bool list \<Rightarrow> int option \<Rightarrow>
   (bool \<times> int option) outcome" where
  \<comment> \<open>\<^verbatim>\<open>for(j=1;j<=k-1;j++)\<close>: returns \<^verbatim>\<open>injective\<close> and \<^verbatim>\<open>kpoint\<close>
      (\<open>None\<close> while \<^verbatim>\<open>kpoint\<close> has never been assigned)\<close>
  "part_loop k A cosetrep c j covered kpoint =
     (if j \<le> k - 1 then
        obind (rd c j) (\<lambda>cj.
        obind (rd cosetrep cj) (\<lambda>p.
        obind (rd A p) (\<lambda>part.
        obind (rdb covered part) (\<lambda>cov.
          if cov then Returns (False, kpoint)
          else obind (wrb covered part True) (\<lambda>covered1.
            part_loop k A cosetrep c (j + 1) covered1
              (if part = k then Some p else kpoint))))))
      else Returns (True, kpoint))"
  by pat_completeness auto
termination
  by (relation "measure (\<lambda>(k, A, cosetrep, c, j, covered, kpoint). nat (k - j))") auto

datatype scan = ReturnedTrue | Scanned "bool list" int "int option"

definition examine ::
  "int \<Rightarrow> intlist \<Rightarrow> intlist \<Rightarrow> intlist list \<Rightarrow> intlist \<Rightarrow> int \<Rightarrow> int \<Rightarrow> int option \<Rightarrow>
   (bool \<times> int option) outcome" where
  \<comment> \<open>the first half of the body of \<^verbatim>\<open>for(i=1;i<=Length(adj);i++)\<close>: the values of
      \<^verbatim>\<open>injective\<close> and \<^verbatim>\<open>kpoint\<close> for the entry \<open>i\<close>\<close>
  "examine k cosetrep adj comb A newpoint i kpoint =
     obind (rd adj i) (\<lambda>ai.
     obind (row comb ai) (\<lambda>c.
     obind (rd A newpoint) (\<lambda>a.
     obind (wrb (replicate (nat (k + 1)) False) a True) (\<lambda>covered.
       part_loop k A cosetrep c 1 covered (if a = k then Some newpoint else kpoint)))))"

definition adj_step ::
  "int \<Rightarrow> int \<Rightarrow> intlist \<Rightarrow> intlist \<Rightarrow> intlist list \<Rightarrow> intlist \<Rightarrow> int \<Rightarrow> int \<Rightarrow> int \<Rightarrow>
   bool list \<Rightarrow> int \<Rightarrow> int option \<Rightarrow> scan outcome" where
  \<comment> \<open>the body of \<^verbatim>\<open>for(i=1;i<=Length(adj);i++)\<close>\<close>
  "adj_step n k cosetrep adj comb A newpoint Acount i Rnew Rnewcount kpoint =
     obind (examine k cosetrep adj comb A newpoint i kpoint) (\<lambda>(injective, kpoint1).
       if injective then
         (case kpoint1 of
            None \<Rightarrow> Undefined
          | Some kp \<Rightarrow>
              obind (rdb Rnew kp) (\<lambda>b.
                if \<not> b then
                  obind (wrb Rnew kp True) (\<lambda>Rnew1.
                    if (Acount + (Rnewcount + 1)) * k > (k - 1) * n then Returns ReturnedTrue
                    else Returns (Scanned Rnew1 (Rnewcount + 1) kpoint1))
                else Returns (Scanned Rnew Rnewcount kpoint1)))
       else Returns (Scanned Rnew Rnewcount kpoint1))"

function adj_loop ::
  "int \<Rightarrow> int \<Rightarrow> intlist \<Rightarrow> intlist \<Rightarrow> intlist list \<Rightarrow> intlist \<Rightarrow> int \<Rightarrow> int \<Rightarrow> int \<Rightarrow> int \<Rightarrow>
   bool list \<Rightarrow> int \<Rightarrow> int option \<Rightarrow> scan outcome" where
  "adj_loop n k cosetrep adj comb A newpoint Acount len i Rnew Rnewcount kpoint =
     (if i \<le> len then
        obind (adj_step n k cosetrep adj comb A newpoint Acount i Rnew Rnewcount kpoint)
          (\<lambda>s. case s of
                 ReturnedTrue \<Rightarrow> Returns ReturnedTrue
               | Scanned Rnew1 Rnewcount1 kpoint1 \<Rightarrow>
                   adj_loop n k cosetrep adj comb A newpoint Acount len (i + 1)
                     Rnew1 Rnewcount1 kpoint1)
      else Returns (Scanned Rnew Rnewcount kpoint))"
  by pat_completeness auto
termination
  by (relation "measure (\<lambda>(n, k, cosetrep, adj, comb, A, newpoint, Acount, len, i, rest).
        nat (len + 1 - i))") auto

function pick_loop :: "int \<Rightarrow> bool list \<Rightarrow> int \<Rightarrow> int option outcome" where
  \<comment> \<open>\<^verbatim>\<open>for(i=1;i<=n;i++) if(Rnew[i]) { r=i; ...; break; }\<close>: \<open>None\<close> when \<^verbatim>\<open>r\<close> stays
      unassigned\<close>
  "pick_loop n Rnew i =
     (if i \<le> n then
        obind (rdb Rnew i) (\<lambda>b. if b then Returns (Some i) else pick_loop n Rnew (i + 1))
      else Returns None)"
  by pat_completeness auto
termination
  by (relation "measure (\<lambda>(n, Rnew, i). nat (n + 1 - i))") auto

function parts_loop ::
  "(intlist \<Rightarrow> (bool \<times> intlist) outcome) \<Rightarrow> int \<Rightarrow> int \<Rightarrow> int \<Rightarrow> intlist \<Rightarrow>
   (bool \<times> intlist) outcome" where
  \<comment> \<open>\<^verbatim>\<open>for(i=1;i<=k-1;i++)\<close>; \<open>call\<close> is the recursive call on the buffer \<^verbatim>\<open>A\<close>,
      and the buffer is returned with the result\<close>
  "parts_loop call k r i A =
     (if i \<le> k - 1 then
        obind (wr A r i) (\<lambda>A1.
        obind (call A1) (\<lambda>(tp, A2).
          if \<not> tp then Returns (False, A2)
          else obind (wr A2 r k) (\<lambda>A3. parts_loop call k r (i + 1) A3)))
      else Returns (True, A))"
  by pat_completeness auto
termination
  by (relation "measure (\<lambda>(call, k, r, i, A). nat (k - i))") auto

text \<open>
  The first argument bounds the depth of the recursion: a call that would need a
  deeper nesting ends as \<open>OutOfFuel\<close>. The result is the returned boolean together
  with the contents of the caller's buffer \<^verbatim>\<open>A\<close> at the return.
\<close>

primrec TransversalProperty ::
  "nat \<Rightarrow> (nat \<Rightarrow> bool) \<Rightarrow> int \<Rightarrow> int \<Rightarrow> intlist list \<Rightarrow> intlist \<Rightarrow> intlist list \<Rightarrow>
   intlist \<Rightarrow> bool list \<Rightarrow> int \<Rightarrow> (bool \<times> intlist) outcome" where
  "TransversalProperty 0 malloc n k cosetreps adj comb A R newpoint = OutOfFuel"
| "TransversalProperty (Suc depth) malloc n k cosetreps adj comb A R newpoint =
     (if \<not> malloc (unsigned (n + 1) * sizeof_bool) then Exits TransversalProperty_malloc_failed
      else if \<not> malloc (unsigned (k + 1) * sizeof_bool) then Exits TransversalProperty_malloc_failed
      else
        obind (count_loop n k A R 1 0 (replicate (nat (n + 1)) False) 0)
          (\<lambda>(Acount, Rnew, Rnewcount).
        obind (row cosetreps newpoint) (\<lambda>cosetrep.
        obind (rd adj 0) (\<lambda>len.
        obind (adj_loop n k cosetrep adj comb A newpoint Acount len 1 Rnew Rnewcount None)
          (\<lambda>s. case s of
             ReturnedTrue \<Rightarrow> Returns (True, A)
           | Scanned Rnew1 Rnewcount1 kpoint \<Rightarrow>
               if Rnewcount1 = 0 then Returns (False, A)
               else
                 obind (pick_loop n Rnew1 1) (\<lambda>pick.
                   case pick of
                     None \<Rightarrow> Undefined
                   | Some r \<Rightarrow>
                       obind (wrb Rnew1 r False) (\<lambda>Rnew2.
                         parts_loop
                           (\<lambda>A1. TransversalProperty depth malloc n k cosetreps adj comb A1 Rnew2 r)
                           k r 1 A)))))))"

declare count_loop.simps [simp del] part_loop.simps [simp del] adj_loop.simps [simp del]
  pick_loop.simps [simp del] parts_loop.simps [simp del]

section \<open>The driver\<close>

text \<open>
  The standard input is the list of the integers still to be read; \<^verbatim>\<open>scanf\<close> at
  the end of the input assigns nothing, and the variable it should have set is then
  read without a value.
\<close>

definition scanf_int :: "int list \<Rightarrow> (int \<times> int list) outcome" where
  "scanf_int inp = (case inp of [] \<Rightarrow> Undefined | v # rest \<Rightarrow> Returns (v, rest))"

function read_loop :: "int \<Rightarrow> int \<Rightarrow> intlist \<Rightarrow> int list \<Rightarrow> (intlist \<times> int list) outcome" where
  \<comment> \<open>\<^verbatim>\<open>for(i=1;i<=length;i++) scanf("%d",&L[i]);\<close>\<close>
  "read_loop len i L inp =
     (if i \<le> len then
        obind (scanf_int inp) (\<lambda>(v, rest).
        obind (wr L i v) (\<lambda>L1. read_loop len (i + 1) L1 rest))
      else Returns (L, inp))"
  by pat_completeness auto
termination
  by (relation "measure (\<lambda>(len, i, L, inp). nat (len + 1 - i))") auto

definition IntListRead :: "(nat \<Rightarrow> bool) \<Rightarrow> int list \<Rightarrow> (intlist \<times> int list) outcome" where
  "IntListRead malloc inp =
     obind (scanf_int inp) (\<lambda>(len, rest).
       if len < 0 then Exits IntListRead_negative_length
       else obind (IntList malloc len) (\<lambda>L. read_loop len 1 L rest))"

declare read_loop.simps [simp del]

lemma read_loop_input: "read_loop len i L inp = Returns (L', rest) \<Longrightarrow> length rest \<le> length inp"
proof (induction len i L inp rule: read_loop.induct)
  case (1 len i L inp)
  show ?case
  proof (cases "i \<le> len")
    case True
    with "1.prems" obtain v r L1 where
      a: "scanf_int inp = Returns (v, r)" and b: "wr L i v = Returns L1"
      and c: "read_loop len (i + 1) L1 r = Returns (L', rest)"
      by (subst (asm) read_loop.simps) (auto simp: obind_eq_Returns)
    have "length rest \<le> length r"
      using "1.IH" [OF True a refl b c] .
    moreover have "length r < length inp"
      using a by (auto simp: scanf_int_def split: list.splits)
    ultimately show ?thesis by simp
  next
    case False
    with "1.prems" show ?thesis by (subst (asm) read_loop.simps) simp
  qed
qed

lemma IntListRead_input:
  "IntListRead malloc inp = Returns (L, rest) \<Longrightarrow> length rest < length inp"
  unfolding IntListRead_def
  by (auto simp: obind_eq_Returns scanf_int_def split: list.splits if_splits
           dest!: read_loop_input)

function cosetreps_loop ::
  "(nat \<Rightarrow> bool) \<Rightarrow> int \<Rightarrow> int \<Rightarrow> intlist list \<Rightarrow> int list \<Rightarrow> (intlist list \<times> int list) outcome" where
  \<comment> \<open>\<^verbatim>\<open>for(i=1;i<=n;i++) cosetreps[i]=IntListRead();\<close>\<close>
  "cosetreps_loop malloc n i cosetreps inp =
     (if i \<le> n then
        obind (IntListRead malloc inp) (\<lambda>(L, rest).
          cosetreps_loop malloc n (i + 1) (cosetreps @ [L]) rest)
      else Returns (cosetreps, inp))"
  by pat_completeness auto
termination
  by (relation "measure (\<lambda>(malloc, n, i, cosetreps, inp). nat (n + 1 - i))") auto

function init_loop ::
  "int \<Rightarrow> int \<Rightarrow> int \<Rightarrow> intlist \<Rightarrow> bool list \<Rightarrow> (intlist \<times> bool list) outcome" where
  \<comment> \<open>\<^verbatim>\<open>for(i=1;i<=n;i++) { A[i]=k; R[i]=false; }\<close>\<close>
  "init_loop n k i A R =
     (if i \<le> n then
        obind (wr A i k) (\<lambda>A1.
        obind (wrb R i False) (\<lambda>R1. init_loop n k (i + 1) A1 R1))
      else Returns (A, R))"
  by pat_completeness auto
termination
  by (relation "measure (\<lambda>(n, k, i, A, R). nat (n + 1 - i))") auto

function seed_loop :: "intlist \<Rightarrow> int \<Rightarrow> int \<Rightarrow> intlist \<Rightarrow> intlist outcome" where
  \<comment> \<open>\<^verbatim>\<open>for(i=1;i<=Length(shortrep);i++) A[shortrep[i]]=i;\<close>\<close>
  "seed_loop shortrep len i A =
     (if i \<le> len then
        obind (rd shortrep i) (\<lambda>p.
        obind (wr A p i) (\<lambda>A1. seed_loop shortrep len (i + 1) A1))
      else Returns A)"
  by pat_completeness auto
termination
  by (relation "measure (\<lambda>(shortrep, len, i, A). nat (len + 1 - i))") auto

definition run_trial ::
  "nat \<Rightarrow> (nat \<Rightarrow> bool) \<Rightarrow> int \<Rightarrow> int \<Rightarrow> intlist list \<Rightarrow> intlist \<Rightarrow> intlist list \<Rightarrow>
   intlist \<Rightarrow> bool list \<Rightarrow> intlist \<Rightarrow> (bool \<times> intlist \<times> bool list) outcome" where
  \<comment> \<open>the body of the trial loop, up to the assignment of \<^verbatim>\<open>result\<close>\<close>
  "run_trial depth malloc n k cosetreps adj comb A R shortrep =
     obind (init_loop n k 1 A R) (\<lambda>(A1, R1).
     obind (rd shortrep 0) (\<lambda>len.
     obind (seed_loop shortrep len 1 A1) (\<lambda>A2.
     obind (rd shortrep 1) (\<lambda>newpoint.
     obind (TransversalProperty depth malloc n k cosetreps adj comb A2 R1 newpoint)
       (\<lambda>(result, A3). Returns (result, A3, R1))))))"

function trial_loop ::
  "nat \<Rightarrow> (nat \<Rightarrow> bool) \<Rightarrow> int \<Rightarrow> int \<Rightarrow> intlist list \<Rightarrow> intlist \<Rightarrow> intlist list \<Rightarrow>
   intlist \<Rightarrow> bool list \<Rightarrow> bool \<Rightarrow> int list \<Rightarrow> (bool \<times> int list) outcome" where
  \<comment> \<open>\<^verbatim>\<open>while(Length(shortrep=IntListRead())!=0)\<close>: returns \<^verbatim>\<open>result\<close> and the
      input left unread\<close>
  "trial_loop depth malloc n k cosetreps adj comb A R result inp =
     obind (IntListRead malloc inp) (\<lambda>(shortrep, rest).
     obind (rd shortrep 0) (\<lambda>len.
       if len \<noteq> 0 then
         obind (run_trial depth malloc n k cosetreps adj comb A R shortrep)
           (\<lambda>(result1, A1, R1).
              if \<not> result1 then Returns (result1, rest)
              else trial_loop depth malloc n k cosetreps adj comb A1 R1 result1 rest)
       else Returns (result, rest)))"
  by pat_completeness auto
termination
  by (relation "measure (\<lambda>(depth, malloc, n, k, cosetreps, adj, comb, A, R, result, inp).
        length inp)") (auto dest: IntListRead_input)

definition printf_bool :: "bool \<Rightarrow> string" where
  \<comment> \<open>\<^verbatim>\<open>printf("%d\n",result)\<close>\<close>
  "printf_bool result = (if result then ''1'' else ''0'') @ [CHR 0x0A]"

text \<open>
  \<open>main\<close> returns what it has printed on the standard output when it ends with
  \<^verbatim>\<open>exit(EXIT_SUCCESS)\<close>.
\<close>

definition main :: "nat \<Rightarrow> (nat \<Rightarrow> bool) \<Rightarrow> int list \<Rightarrow> string outcome" where
  "main depth malloc inp =
     obind (scanf_int inp) (\<lambda>(n, inp1).
     obind (scanf_int inp1) (\<lambda>(k, inp2).
       if k < 2 \<or> k > n then Exits Bad_input
       else if \<not> malloc (unsigned (n + 1) * sizeof_ptr) then Exits Cosetreps_malloc_failed
       else
         obind (cosetreps_loop malloc n 1 [[]] inp2) (\<lambda>(cosetreps, inp3).
         obind (IntListRead malloc inp3) (\<lambda>(adj, inp4).
         obind (Combinations malloc n (k - 1)) (\<lambda>comb.
         obind (IntList malloc n) (\<lambda>A.
           if \<not> malloc (unsigned (n + 1) * sizeof_bool) then Exits Main_malloc_failed
           else
             obind (trial_loop depth malloc n k cosetreps adj comb A
                      (replicate (nat (n + 1)) False) True inp4)
               (\<lambda>(result, rest). Returns (printf_bool result))))))))"

declare cosetreps_loop.simps [simp del] init_loop.simps [simp del] seed_loop.simps [simp del]
  trial_loop.simps [simp del]




lemma wrap_int_id: "- 2147483648 \<le> x \<Longrightarrow> x \<le> INT_MAX \<Longrightarrow> wrap_int x = x"
  by (simp add: wrap_int_def INT_MAX_def)

lemma c_div_nonneg: "0 \<le> a \<Longrightarrow> 0 < b \<Longrightarrow> c_div a b = a div b"
  by (cases "a = 0") (simp_all add: c_div_def)

lemma choose_absorb: "Suc k * (Suc n choose Suc k) = Suc n * (n choose k)"
  by (rule Suc_times_binomial)

lemma Binomial_exact:
  "k \<le> n \<Longrightarrow> int k * int (n choose k) \<le> INT_MAX \<Longrightarrow>
   Binomial (int n) (int k) = Returns (int (n choose k))"
proof (induction k arbitrary: n)
  case 0
  then show ?case by (simp add: Binomial.simps)
next
  case (Suc k)
  then obtain m where m: "n = Suc m" by (cases n) auto
  have absorb: "Suc k * (Suc m choose Suc k) = Suc m * (m choose k)"
    by (rule choose_absorb)
  have km: "k \<le> m" using Suc.prems m by simp
  have "k * (m choose k) \<le> Suc m * (m choose k)"
    using km by (intro mult_le_mono1) simp
  also have "\<dots> = Suc k * (Suc m choose Suc k)" using absorb by simp
  finally have "int k * int (m choose k) \<le> int (Suc k) * int (Suc m choose Suc k)"
    by (metis of_nat_mult of_nat_le_iff)
  then have small: "int k * int (m choose k) \<le> INT_MAX"
    using Suc.prems(2) unfolding m by (rule order_trans)
  have rec: "Binomial (int m) (int k) = Returns (int (m choose k))"
    by (rule Suc.IH [OF km small])
  have prod: "int (m choose k) * int (Suc m) = int (Suc k) * int (Suc m choose Suc k)"
    using absorb by (metis of_nat_mult mult.commute)
  have ub: "int (Suc k) * int (Suc m choose Suc k) \<le> INT_MAX"
    using Suc.prems(2) unfolding m .
  have "0 \<le> int (Suc k) * int (Suc m choose Suc k)"
    by (intro mult_nonneg_nonneg of_nat_0_le_iff)
  then have lb: "- 2147483648 \<le> int (Suc k) * int (Suc m choose Suc k)"
    by linarith
  have fits: "wrap_int (int (m choose k) * int (Suc m)) = int (Suc k) * int (Suc m choose Suc k)"
    unfolding prod by (rule wrap_int_id [OF lb ub])
  have quot: "c_div (int (Suc k) * int (Suc m choose Suc k)) (int (Suc k)) = int (Suc m choose Suc k)"
    by (subst c_div_nonneg) simp_all
  have "Binomial (int (Suc m)) (int (Suc k)) =
        obind (Binomial (int m) (int k)) (\<lambda>b. Returns (c_div (wrap_int (b * int (Suc m))) (int (Suc k))))"
    using km by (subst Binomial.simps) simp
  then show ?case
    using rec fits quot m by simp
qed

text \<open>
  C7. The Pascal rule needs both of its calls to be legal (\<open>0 < k < n\<close>), and every
  identity needs the products \<open>Binomial(n-1,k-1) * n\<close> to stay in the range of
  \<^verbatim>\<open>int\<close>. On that domain \<^verbatim>\<open>Binomial\<close> is symmetric, is 1 at \<open>k = 0\<close>, and obeys the
  Pascal rule; its value is the binomial coefficient.
\<close>

theorem Binomial_identities:
  assumes "k \<le> n" and "int (max k (n - k)) * int (n choose k) \<le> INT_MAX"
  shows "Binomial (int n) (int k) = Returns (int (n choose k))
       \<and> Binomial (int n) (int k) = Binomial (int n) (int n - int k)
       \<and> Binomial (int n) 0 = Returns 1
       \<and> (0 < k \<and> k < n \<longrightarrow>
            (\<exists>a b c. Binomial (int n) (int k) = Returns c
                   \<and> Binomial (int n - 1) (int k - 1) = Returns a
                   \<and> Binomial (int n - 1) (int k) = Returns b
                   \<and> c = a + b))"
proof -
  have le1: "int k * int (n choose k) \<le> int (max k (n - k)) * int (n choose k)"
    by (intro mult_right_mono) simp_all
  have le2: "int (n - k) * int (n choose (n - k)) \<le> int (max k (n - k)) * int (n choose k)"
    using assms(1) by (simp add: binomial_symmetric [symmetric] mult_right_mono)
  have kC: "int k * int (n choose k) \<le> INT_MAX"
    by (rule order_trans [OF le1 assms(2)])
  have A: "Binomial (int n) (int k) = Returns (int (n choose k))"
    by (rule Binomial_exact [OF assms(1) order_trans [OF le1 assms(2)]])
  have "Binomial (int n) (int (n - k)) = Returns (int (n choose (n - k)))"
    by (rule Binomial_exact [OF diff_le_self order_trans [OF le2 assms(2)]])
  then have B: "Binomial (int n) (int n - int k) = Returns (int (n choose k))"
    using assms(1) by (simp add: binomial_symmetric [symmetric] of_nat_diff)
  have C: "Binomial (int n) 0 = Returns 1"
    by (simp add: Binomial.simps)
  have D: "\<exists>a b c. Binomial (int n) (int k) = Returns c
                   \<and> Binomial (int n - 1) (int k - 1) = Returns a
                   \<and> Binomial (int n - 1) (int k) = Returns b
                   \<and> c = a + b" if kpos: "0 < k" and kn: "k < n"
  proof -
    obtain m j where mj: "n = Suc m" "k = Suc j"
      using kpos kn by (cases n; cases k) auto
    have jm: "j \<le> m" "Suc j \<le> m" using kn mj by simp_all
    have "j * (m choose j) \<le> Suc m * (m choose j)"
      using jm(1) by (intro mult_le_mono1) simp
    also have "\<dots> = Suc j * (Suc m choose Suc j)"
      by (rule choose_absorb [symmetric])
    finally have "int j * int (m choose j) \<le> int (Suc j) * int (Suc m choose Suc j)"
      by (metis of_nat_mult of_nat_le_iff)
    then have s1: "int j * int (m choose j) \<le> INT_MAX"
      using kC unfolding mj by (rule order_trans)
    have "Suc j * (m choose Suc j) \<le> Suc j * (Suc m choose Suc j)"
      by (intro mult_le_mono2) simp
    then have "int (Suc j) * int (m choose Suc j) \<le> int (Suc j) * int (Suc m choose Suc j)"
      by (metis of_nat_mult of_nat_le_iff)
    then have s2: "int (Suc j) * int (m choose Suc j) \<le> INT_MAX"
      using kC unfolding mj by (rule order_trans)
    have a: "Binomial (int m) (int j) = Returns (int (m choose j))"
      by (rule Binomial_exact [OF jm(1) s1])
    have b: "Binomial (int m) (int (Suc j)) = Returns (int (m choose Suc j))"
      by (rule Binomial_exact [OF jm(2) s2])
    have "int (Suc m choose Suc j) = int (m choose j) + int (m choose Suc j)"
      by simp
    then show ?thesis
      using A a b mj by simp
  qed
  show ?thesis using A B C D by simp
qed

theorem Binomial_identities_witness:
  "Binomial 5 2 = Returns 10
 \<and> Binomial 5 2 = Binomial 5 3
 \<and> Binomial 5 0 = Returns 1
 \<and> (\<exists>a b c. Binomial 5 2 = Returns c \<and> Binomial 4 1 = Returns a
            \<and> Binomial 4 2 = Returns b \<and> c = a + b)"
proof -
  have c: "(5::nat) choose 2 = 10"
    by (simp add: numeral_eq_Suc)
  have h1: "(2::nat) \<le> 5" by simp
  have h2: "int (max 2 (5 - 2)) * int ((5::nat) choose 2) \<le> INT_MAX"
    by (simp add: c INT_MAX_def)
  show ?thesis
    using Binomial_identities [OF h1 h2] by (auto simp: c)
qed

theorem Binomial_identities_counterexample:
  "Binomial 30 15 = Returns (- 131213633)
 \<and> Binomial 29 14 = Returns 77558760
 \<and> Binomial 29 15 = Returns 77558760
 \<and> Binomial 1 0 = Returns 1
 \<and> Binomial 0 (- 1) = Exits Binomial_bad_arguments"
  by (simp add: Binomial.simps wrap_int_def c_div_def)


section \<open>The driver's trial loop\<close>

lemma read_loop_cell0:
  "read_loop len i L inp = Returns (L', rest) \<Longrightarrow> 1 \<le> i \<Longrightarrow>
   length L' = length L \<and> L' ! 0 = L ! 0"
proof (induction len i L inp rule: read_loop.induct)
  case (1 len i L inp)
  show ?case
  proof (cases "i \<le> len")
    case True
    with "1.prems" obtain v r L1 where
      a: "scanf_int inp = Returns (v, r)" and b: "wr L i v = Returns L1"
      and c: "read_loop len (i + 1) L1 r = Returns (L', rest)"
      by (subst (asm) read_loop.simps) (auto simp: obind_eq_Returns)
    have "length L' = length L1 \<and> L' ! 0 = L1 ! 0"
      using "1.IH" [OF True a refl b c] "1.prems"(2) by simp
    moreover have "length L1 = length L \<and> L1 ! 0 = L ! 0"
      using b "1.prems"(2) by (auto simp: wr_def split: if_splits)
    ultimately show ?thesis by simp
  next
    case False
    with "1.prems" show ?thesis by (subst (asm) read_loop.simps) simp
  qed
qed

lemma IntListRead_Length:
  assumes "IntListRead malloc inp = Returns (L, rest)"
  shows "rd L 0 = Returns (Length L)"
proof -
  from assms obtain len r L0 where
    a: "IntList malloc len = Returns L0" and b: "read_loop len 1 L0 r = Returns (L, rest)"
    unfolding IntListRead_def
    by (auto simp: obind_eq_Returns split: if_splits)
  have "length L0 = nat len + 1"
    using a by (auto simp: IntList_def SetLength_def split: if_splits)
  moreover have "length L = length L0"
    using read_loop_cell0 [OF b] by simp
  ultimately show ?thesis
    by (simp add: rd_def Length_def)
qed

lemma trial_loop_step:
  assumes "IntListRead malloc inp = Returns (shortrep, rest)"
  shows "trial_loop depth malloc n k cosetreps adj comb A R result inp =
     (if Length shortrep \<noteq> 0 then
        obind (run_trial depth malloc n k cosetreps adj comb A R shortrep)
          (\<lambda>(result1, A1, R1).
             if \<not> result1 then Returns (result1, rest)
             else trial_loop depth malloc n k cosetreps adj comb A1 R1 result1 rest)
      else Returns (result, rest))"
  by (subst trial_loop.simps) (simp add: assms IntListRead_Length [OF assms])

text \<open>
  C10. When the first trial sequence read has length zero, no trial is run: the
  program prints 1, the initial value of \<^verbatim>\<open>result\<close>, and ends with
  \<^verbatim>\<open>exit(EXIT_SUCCESS)\<close>. This holds for every recursion budget, 0 included, so no
  call of \<^verbatim>\<open>TransversalProperty\<close> takes part in it.
\<close>

theorem main_no_trial:
  assumes "scanf_int inp = Returns (n, inp1)"
    and "scanf_int inp1 = Returns (k, inp2)"
    and "2 \<le> k" and "k \<le> n"
    and "malloc (unsigned (n + 1) * sizeof_ptr)"
    and "cosetreps_loop malloc n 1 [[]] inp2 = Returns (cosetreps, inp3)"
    and "IntListRead malloc inp3 = Returns (adj, inp4)"
    and "Combinations malloc n (k - 1) = Returns comb"
    and "IntList malloc n = Returns A"
    and "malloc (unsigned (n + 1) * sizeof_bool)"
    and "IntListRead malloc inp4 = Returns (shortrep, rest)"
    and "Length shortrep = 0"
  shows "main depth malloc inp = Returns (''1'' @ [CHR 0x0A])"
proof -
  have "trial_loop depth malloc n k cosetreps adj comb A (replicate (nat (n + 1)) False) True inp4
        = Returns (True, rest)"
    using trial_loop_step [OF assms(11)] assms(12) by simp
  then show ?thesis
    using assms(1-10) by (simp add: main_def printf_bool_def)
qed


lemmas cell_simps = rd_def wr_def rdb_def wrb_def row_def Length_def SetLength_def IntList_def
  unsigned_def sizeof_int_def sizeof_ptr_def sizeof_bool_def eval_nat_numeral

lemmas input_simps = scanf_int_def IntListRead_def read_loop.simps cosetreps_loop.simps

lemmas Combinations_simps = Combinations_def Binomial.simps wrap_int_def c_div_def
  first_loop.simps copy_loop.simps fill_loop.simps successor_loop.simps comb_loop.simps

lemmas TransversalProperty_simps = count_loop.simps part_loop.simps examine_def adj_step_def
  adj_loop.simps
  pick_loop.simps parts_loop.simps

lemmas trial_simps = run_trial_def init_loop.simps seed_loop.simps

theorem main_no_trial_witness:
  "main 0 (\<lambda>s. True)
     [4, 2,  4, 1, 2, 3, 4,  4, 2, 1, 4, 3,  4, 3, 4, 1, 2,  4, 4, 3, 2, 1,  1, 2,  0]
   = Returns (''1'' @ [CHR 0x0A])"
proof -
  let ?m = "\<lambda>s::nat. True"
  have h1: "scanf_int [4, 2, 4, 1, 2, 3, 4, 4, 2, 1, 4, 3, 4, 3, 4, 1, 2, 4, 4, 3, 2, 1, 1, 2, 0]
      = Returns (4, [2, 4, 1, 2, 3, 4, 4, 2, 1, 4, 3, 4, 3, 4, 1, 2, 4, 4, 3, 2, 1, 1, 2, 0])"
    by (simp add: scanf_int_def)
  have h2: "scanf_int [2, 4, 1, 2, 3, 4, 4, 2, 1, 4, 3, 4, 3, 4, 1, 2, 4, 4, 3, 2, 1, 1, 2, 0]
      = Returns (2, [4, 1, 2, 3, 4, 4, 2, 1, 4, 3, 4, 3, 4, 1, 2, 4, 4, 3, 2, 1, 1, 2, 0])"
    by (simp add: scanf_int_def)
  have h3: "(2::int) \<le> 2" and h4: "(2::int) \<le> 4" by simp_all
  have h5: "?m (unsigned (4 + 1) * sizeof_ptr)" by simp
  have h6: "cosetreps_loop ?m 4 1 [[]]
        [4, 1, 2, 3, 4, 4, 2, 1, 4, 3, 4, 3, 4, 1, 2, 4, 4, 3, 2, 1, 1, 2, 0]
      = Returns ([[], [4, 1, 2, 3, 4], [4, 2, 1, 4, 3], [4, 3, 4, 1, 2], [4, 4, 3, 2, 1]],
                 [1, 2, 0])"
    by (simp add: input_simps cell_simps)
  have h7: "IntListRead ?m [1, 2, 0] = Returns ([1, 2], [0])"
    by (simp add: input_simps cell_simps)
  have h8: "Combinations ?m 4 (2 - 1) = Returns [[], [1, 1], [1, 2], [1, 3], [1, 4]]"
    by (simp add: Combinations_simps cell_simps)
  have h9: "IntList ?m 4 = Returns [4, 0, 0, 0, 0]"
    by (simp add: cell_simps)
  have h10: "?m (unsigned (4 + 1) * sizeof_bool)" by simp
  have h11: "IntListRead ?m [0] = Returns ([0], [])"
    by (simp add: input_simps cell_simps)
  have h12: "Length [0] = 0" by (simp add: Length_def)
  show ?thesis
    by (rule main_no_trial [OF h1 h2 h3 h4 h5 h6 h7 h8 h9 h10 h11 h12])
qed

text \<open>
  C8. After the tables are read, the program prints \<open>1\<close> or \<open>0\<close> for the value of
  \<^verbatim>\<open>result\<close> that the trial loop ends with. One round of the loop: a sequence of
  length zero ends the loop with \<^verbatim>\<open>result\<close> as the last trial left it; a trial whose
  result is false ends the loop at once with that result, the rest of the input
  unread; a trial whose result is true makes that the current result and the loop
  goes on with the rest of the input.
\<close>

theorem main_prints_last_result:
  assumes "scanf_int inp = Returns (n, inp1)"
    and "scanf_int inp1 = Returns (k, inp2)"
    and "2 \<le> k" and "k \<le> n"
    and "malloc (unsigned (n + 1) * sizeof_ptr)"
    and "cosetreps_loop malloc n 1 [[]] inp2 = Returns (cosetreps, inp3)"
    and "IntListRead malloc inp3 = Returns (adj, inp4)"
    and "Combinations malloc n (k - 1) = Returns comb"
    and "IntList malloc n = Returns A0"
    and "malloc (unsigned (n + 1) * sizeof_bool)"
    and "IntListRead malloc trials = Returns (shortrep, rest)"
  shows "main depth malloc inp =
           obind (trial_loop depth malloc n k cosetreps adj comb A0
                    (replicate (nat (n + 1)) False) True inp4)
             (\<lambda>(result, unread). Returns ((if result then ''1'' else ''0'') @ [CHR 0x0A]))
       \<and> (Length shortrep = 0 \<longrightarrow>
            trial_loop depth malloc n k cosetreps adj comb A R result trials
            = Returns (result, rest))
       \<and> (Length shortrep \<noteq> 0
            \<and> run_trial depth malloc n k cosetreps adj comb A R shortrep = Returns (False, A1, R1) \<longrightarrow>
            trial_loop depth malloc n k cosetreps adj comb A R result trials
            = Returns (False, rest))
       \<and> (Length shortrep \<noteq> 0
            \<and> run_trial depth malloc n k cosetreps adj comb A R shortrep = Returns (True, A1, R1) \<longrightarrow>
            trial_loop depth malloc n k cosetreps adj comb A R result trials
            = trial_loop depth malloc n k cosetreps adj comb A1 R1 True rest)"
proof -
  have "main depth malloc inp =
           obind (trial_loop depth malloc n k cosetreps adj comb A0
                    (replicate (nat (n + 1)) False) True inp4)
             (\<lambda>(result, unread). Returns ((if result then ''1'' else ''0'') @ [CHR 0x0A]))"
    using assms(1-10) by (simp add: main_def printf_bool_def)
  then show ?thesis
    by (simp add: trial_loop_step [OF assms(11)])
qed

theorem main_prints_last_result_witness:
  "main 4 (\<lambda>s. True)
     [4, 2,  4, 1, 2, 3, 4,  4, 2, 3, 4, 1,  4, 3, 4, 1, 2,  4, 4, 1, 2, 3,  2, 2, 4,
      1, 1,  0,  1, 2]
   = Returns (''1'' @ [CHR 0x0A])
 \<and> main 4 (\<lambda>s. True)
     [4, 2,  4, 1, 2, 3, 4,  4, 2, 1, 4, 3,  4, 3, 4, 1, 2,  4, 4, 3, 2, 1,  1, 2,
      1, 1,  1, 2,  0]
   = Returns (''0'' @ [CHR 0x0A])"
proof -
  let ?m = "\<lambda>s::nat. True"
  let ?comb = "[[], [1, 1], [1, 2], [1, 3], [1, 4]] :: intlist list"
  let ?R = "[False, False, False, False, False]"
  have sc: "\<And>v rest. scanf_int (v # rest) = Returns (v, rest)"
    by (simp add: scanf_int_def)
  have h3: "(2::int) \<le> 2" and h4: "(2::int) \<le> 4" by simp_all
  have h5: "?m (unsigned (4 + 1) * sizeof_ptr)" by simp
  have h8: "Combinations ?m 4 (2 - 1) = Returns ?comb"
    by (simp add: Combinations_simps cell_simps)
  have h9: "IntList ?m 4 = Returns [4, 0, 0, 0, 0]"
    by (simp add: cell_simps)
  have h10: "?m (unsigned (4 + 1) * sizeof_bool)" by simp
  have rep: "replicate 5 False = ?R"
    by (simp add: eval_nat_numeral)
  \<comment> \<open>the cyclic group of order 4 and the orbit of \<open>{1,2}\<close>: one trial, true, then the end\<close>
  let ?C4 = "[[], [4, 1, 2, 3, 4], [4, 2, 3, 4, 1], [4, 3, 4, 1, 2], [4, 4, 1, 2, 3]] :: intlist list"
  have c6: "cosetreps_loop ?m 4 1 [[]]
        [4, 1, 2, 3, 4, 4, 2, 3, 4, 1, 4, 3, 4, 1, 2, 4, 4, 1, 2, 3, 2, 2, 4, 1, 1, 0, 1, 2]
      = Returns (?C4, [2, 2, 4, 1, 1, 0, 1, 2])"
    by (simp add: input_simps cell_simps)
  have c7: "IntListRead ?m [2, 2, 4, 1, 1, 0, 1, 2] = Returns ([2, 2, 4], [1, 1, 0, 1, 2])"
    by (simp add: input_simps cell_simps)
  have c11: "IntListRead ?m [1, 1, 0, 1, 2] = Returns ([1, 1], [0, 1, 2])"
    by (simp add: input_simps cell_simps)
  have c12: "IntListRead ?m [0, 1, 2] = Returns ([0], [1, 2])"
    by (simp add: input_simps cell_simps)
  have ct: "run_trial 4 ?m 4 2 ?C4 [2, 2, 4] ?comb [4, 0, 0, 0, 0] ?R [1, 1]
      = Returns (True, [4, 1, 2, 2, 2], ?R)"
    by (simp add: trial_simps TransversalProperty_simps cell_simps)
  note c1 = main_prints_last_result [OF sc sc h3 h4 h5 c6 c7 h8 h9 h10 c11,
      where depth = 4 and A = "[4, 0, 0, 0, 0]" and R = ?R and result = True
        and ?A1.0 = "[4, 1, 2, 2, 2]" and ?R1.0 = ?R]
  note c2 = main_prints_last_result [OF sc sc h3 h4 h5 c6 c7 h8 h9 h10 c12,
      where depth = 4 and A = "[4, 1, 2, 2, 2]" and R = ?R and result = True
        and ?A1.0 = "[]" and ?R1.0 = "[]"]
  have C: "main 4 ?m
        [4, 2, 4, 1, 2, 3, 4, 4, 2, 3, 4, 1, 4, 3, 4, 1, 2, 4, 4, 1, 2, 3, 2, 2, 4, 1, 1, 0, 1, 2]
      = Returns (''1'' @ [CHR 0x0A])"
    using c1 c2 ct by (simp add: rep Length_def)
  \<comment> \<open>the four-group and the orbit of \<open>{1,2}\<close>: the first trial is false, the rest unread\<close>
  let ?V4 = "[[], [4, 1, 2, 3, 4], [4, 2, 1, 4, 3], [4, 3, 4, 1, 2], [4, 4, 3, 2, 1]] :: intlist list"
  have v6: "cosetreps_loop ?m 4 1 [[]]
        [4, 1, 2, 3, 4, 4, 2, 1, 4, 3, 4, 3, 4, 1, 2, 4, 4, 3, 2, 1, 1, 2, 1, 1, 1, 2, 0]
      = Returns (?V4, [1, 2, 1, 1, 1, 2, 0])"
    by (simp add: input_simps cell_simps)
  have v7: "IntListRead ?m [1, 2, 1, 1, 1, 2, 0] = Returns ([1, 2], [1, 1, 1, 2, 0])"
    by (simp add: input_simps cell_simps)
  have v11: "IntListRead ?m [1, 1, 1, 2, 0] = Returns ([1, 1], [1, 2, 0])"
    by (simp add: input_simps cell_simps)
  have vt: "run_trial 4 ?m 4 2 ?V4 [1, 2] ?comb [4, 0, 0, 0, 0] ?R [1, 1]
      = Returns (False, [4, 1, 1, 2, 2], ?R)"
    by (simp add: trial_simps TransversalProperty_simps cell_simps)
  note v1 = main_prints_last_result [OF sc sc h3 h4 h5 v6 v7 h8 h9 h10 v11,
      where depth = 4 and A = "[4, 0, 0, 0, 0]" and R = ?R and result = True
        and ?A1.0 = "[4, 1, 1, 2, 2]" and ?R1.0 = ?R]
  have V: "main 4 ?m
        [4, 2, 4, 1, 2, 3, 4, 4, 2, 1, 4, 3, 4, 3, 4, 1, 2, 4, 4, 3, 2, 1, 1, 2, 1, 1, 1, 2, 0]
      = Returns (''0'' @ [CHR 0x0A])"
    using v1 vt by (simp add: rep Length_def)
  show ?thesis using C V by simp
qed

section \<open>Fatal errors\<close>

text \<open>
  C9. \<^verbatim>\<open>IntList\<close> and \<^verbatim>\<open>IntListRead\<close> end the process on a negative length,
  \<^verbatim>\<open>Binomial\<close> and \<^verbatim>\<open>Combinations\<close> on \<open>n < k\<close> or \<open>k < 0\<close>, the driver on
  \<open>k < 2\<close> or \<open>k > n\<close>, and \<^verbatim>\<open>IntList\<close>, \<^verbatim>\<open>Combinations\<close> and
  \<^verbatim>\<open>TransversalProperty\<close> on a failed allocation: each with its diagnostic and no
  value returned. A \<open>k\<close> below 2 is no error for \<^verbatim>\<open>Binomial\<close> and \<^verbatim>\<open>Combinations\<close>.
\<close>

theorem fatal_errors:
  "(len < 0 \<longrightarrow> IntList malloc len = Exits IntList_negative_length)
 \<and> (0 \<le> len \<and> \<not> malloc (unsigned (len + 1) * sizeof_int) \<longrightarrow>
      IntList malloc len = Exits IntList_malloc_failed)
 \<and> (len < 0 \<longrightarrow> IntListRead malloc (len # inp) = Exits IntListRead_negative_length)
 \<and> (n < k \<or> k < 0 \<longrightarrow> Binomial n k = Exits Binomial_bad_arguments)
 \<and> (n < k \<or> k < 0 \<longrightarrow> Combinations malloc n k = Exits Combinations_bad_arguments)
 \<and> (0 \<le> k \<and> k \<le> n \<and> Binomial n k = Returns binom
      \<and> \<not> malloc (unsigned (binom + 1) * sizeof_ptr) \<longrightarrow>
      Combinations malloc n k = Exits Combinations_malloc_failed)
 \<and> (0 \<le> k \<and> k \<le> n \<and> Binomial n k = Returns binom
      \<and> malloc (unsigned (binom + 1) * sizeof_ptr) \<and> 2 \<le> unsigned (binom + 1)
      \<and> \<not> malloc (unsigned (k + 1) * sizeof_int) \<longrightarrow>
      Combinations malloc n k = Exits IntList_malloc_failed)
 \<and> (\<not> malloc (unsigned (n + 1) * sizeof_bool) \<or> \<not> malloc (unsigned (k + 1) * sizeof_bool) \<longrightarrow>
      TransversalProperty (Suc depth) malloc n k cosetreps adj comb A R newpoint
      = Exits TransversalProperty_malloc_failed)
 \<and> (k < 2 \<or> k > n \<longrightarrow> main depth malloc (n # k # inp) = Exits Bad_input)"
  by (auto simp: IntList_def IntListRead_def scanf_int_def Binomial.simps [of n k]
        Combinations_def main_def)

theorem fatal_errors_witness:
  "IntList (\<lambda>s. False) (- 1) = Exits IntList_negative_length
 \<and> IntList (\<lambda>s. False) 3 = Exits IntList_malloc_failed
 \<and> IntListRead (\<lambda>s. False) [- 1, 7] = Exits IntListRead_negative_length
 \<and> Binomial 2 3 = Exits Binomial_bad_arguments
 \<and> Combinations (\<lambda>s. False) 2 3 = Exits Combinations_bad_arguments
 \<and> Combinations (\<lambda>s. False) 4 1 = Exits Combinations_malloc_failed
 \<and> Combinations (\<lambda>s. s \<noteq> 8) 4 1 = Exits IntList_malloc_failed
 \<and> TransversalProperty (Suc 0) (\<lambda>s. False) 4 2 [] [] [] [] [] 1
      = Exits TransversalProperty_malloc_failed
 \<and> main 0 (\<lambda>s. False) [4, 1, 7] = Exits Bad_input"
proof -
  have b: "Binomial 4 1 = Returns 4"
    by (simp add: Binomial.simps wrap_int_def c_div_def)
  note f1 = fatal_errors [where len = "- 1" and malloc = "\<lambda>s. False" and inp = "[7]"
      and n = 2 and k = 3 and binom = 4 and depth = 0 and cosetreps = "[]" and adj = "[]"
      and comb = "[]" and A = "[]" and R = "[]" and newpoint = 1]
  note f2 = fatal_errors [where len = 3 and malloc = "\<lambda>s. False" and inp = "[7]"
      and n = 4 and k = 1 and binom = 4 and depth = 0 and cosetreps = "[]" and adj = "[]"
      and comb = "[]" and A = "[]" and R = "[]" and newpoint = 1]
  note f3 = fatal_errors [where len = 3 and malloc = "\<lambda>s. s \<noteq> 8" and inp = "[7]"
      and n = 4 and k = 1 and binom = 4 and depth = 0 and cosetreps = "[]" and adj = "[]"
      and comb = "[]" and A = "[]" and R = "[]" and newpoint = 1]
  note f4 = fatal_errors [where len = 3 and malloc = "\<lambda>s. False" and inp = "[7]"
      and n = 4 and k = 2 and binom = 4 and depth = 0 and cosetreps = "[]" and adj = "[]"
      and comb = "[]" and A = "[]" and R = "[]" and newpoint = 1]
  show ?thesis
    using f1 f2 f3 f4 b
    by (simp add: unsigned_def sizeof_ptr_def sizeof_int_def sizeof_bool_def)
qed

theorem fatal_errors_counterexample:
  "Binomial 5 1 = Returns 5
 \<and> Combinations (\<lambda>s. True) 5 1 = Returns [[], [1, 1], [1, 2], [1, 3], [1, 4], [1, 5]]"
  by (simp add: Combinations_simps cell_simps)


section \<open>Invariants of TransversalProperty\<close>

text \<open>
  \<open>forced_in_last\<close> is the requirement of the header comment that the set represented
  by \<^verbatim>\<open>R\<close> lies in the last part: \<^verbatim>\<open>A[s]==k\<close> for every \<open>s\<close> of the set.
  \<open>known_kpoint\<close> says that \<^verbatim>\<open>kpoint\<close>, once assigned, is a point of the last part.
\<close>

definition forced_in_last :: "int \<Rightarrow> int \<Rightarrow> intlist \<Rightarrow> bool list \<Rightarrow> bool" where
  "forced_in_last n k A R = (\<forall>p. 1 \<le> p \<and> p \<le> n \<and> R ! nat p \<longrightarrow> A ! nat p = k)"

definition known_kpoint :: "int \<Rightarrow> intlist \<Rightarrow> int option \<Rightarrow> bool" where
  "known_kpoint k A kpoint = (case kpoint of None \<Rightarrow> True | Some q \<Rightarrow> A ! nat q = k)"


lemma count_loop_Returns:
  "count_loop n k A R i Acount Rnew cnt = Returns (Acount', Rnew', cnt') \<Longrightarrow> 1 \<le> i \<Longrightarrow>
   length Rnew' = length Rnew
   \<and> (\<forall>p. i \<le> p \<and> p \<le> n \<longrightarrow> nat p < length Rnew \<and> Rnew' ! nat p = R ! nat p)
   \<and> (\<forall>q. q < nat i \<longrightarrow> Rnew' ! q = Rnew ! q)
   \<and> Acount' = Acount + int (card {p. i \<le> p \<and> p \<le> n \<and> A ! nat p < k})
   \<and> cnt' = cnt + int (card {p. i \<le> p \<and> p \<le> n \<and> R ! nat p})"
proof (induction n k A R i Acount Rnew cnt rule: count_loop.induct)
  case (1 n k A R i Acount Rnew cnt)
  show ?case
  proof (cases "i \<le> n")
    case False
    then have e: "{p. i \<le> p \<and> p \<le> n \<and> A ! nat p < k} = {}"
      "{p. i \<le> p \<and> p \<le> n \<and> R ! nat p} = {}"
      by auto
    from False "1.prems" show ?thesis
      unfolding e by (subst (asm) count_loop.simps) auto
  next
    case True
    with "1.prems" obtain a b Rnew1 where
      a: "rd A i = Returns a" and b: "rdb R i = Returns b" and w: "wrb Rnew i b = Returns Rnew1"
      and rec: "count_loop n k A R (i + 1) (if a < k then Acount + 1 else Acount) Rnew1
                  (if b then cnt + 1 else cnt) = Returns (Acount', Rnew', cnt')"
      by (subst (asm) count_loop.simps) (auto simp: obind_eq_Returns)
    note IH = "1.IH" [OF True a b w rec]
    have av: "a = A ! nat i" using a by (auto simp: rd_def split: if_splits)
    have bv: "b = R ! nat i" using b by (auto simp: rdb_def split: if_splits)
    have w1: "nat i < length Rnew" "Rnew1 = Rnew[nat i := b]"
      using w by (auto simp: wrb_def split: if_splits)
    have splitA: "{p. i \<le> p \<and> p \<le> n \<and> A ! nat p < k}
        = (if a < k then {i} else {}) \<union> {p. i + 1 \<le> p \<and> p \<le> n \<and> A ! nat p < k}"
      using True av by (auto simp: order_le_less)
    have splitR: "{p. i \<le> p \<and> p \<le> n \<and> R ! nat p}
        = (if b then {i} else {}) \<union> {p. i + 1 \<le> p \<and> p \<le> n \<and> R ! nat p}"
      using True bv by (auto simp: order_le_less)
    have fin: "finite {p. i + 1 \<le> p \<and> p \<le> n \<and> A ! nat p < k}"
      "finite {p. i + 1 \<le> p \<and> p \<le> n \<and> R ! nat p}"
      by (rule finite_subset [of _ "{i + 1..n}"]; auto)+
    have cA: "int (card {p. i \<le> p \<and> p \<le> n \<and> A ! nat p < k})
        = (if a < k then 1 else 0) + int (card {p. i + 1 \<le> p \<and> p \<le> n \<and> A ! nat p < k})"
      unfolding splitA using fin by (auto simp: card_insert_if)
    have cR: "int (card {p. i \<le> p \<and> p \<le> n \<and> R ! nat p})
        = (if b then 1 else 0) + int (card {p. i + 1 \<le> p \<and> p \<le> n \<and> R ! nat p})"
      unfolding splitR using fin by (auto simp: card_insert_if)
    have cells: "\<forall>p. i \<le> p \<and> p \<le> n \<longrightarrow> nat p < length Rnew \<and> Rnew' ! nat p = R ! nat p"
    proof (intro allI impI)
      fix p assume p: "i \<le> p \<and> p \<le> n"
      show "nat p < length Rnew \<and> Rnew' ! nat p = R ! nat p"
      proof (cases "p = i")
        case True
        have "Rnew' ! nat i = Rnew1 ! nat i"
          using IH "1.prems"(2) by (simp add: nat_less_iff)
        then show ?thesis using True w1 bv by simp
      next
        case False
        then show ?thesis using IH p w1 "1.prems"(2) by simp
      qed
    qed
    have low: "\<forall>q. q < nat i \<longrightarrow> Rnew' ! q = Rnew ! q"
      using IH w1 "1.prems"(2) by (auto simp: nat_less_iff)
    show ?thesis
      using IH "1.prems"(2) w1 cells low cA cR by (auto split: if_splits)
  qed
qed


lemma part_loop_kpoint:
  "part_loop k A cosetrep c j covered kpoint = Returns (injv, kpoint') \<Longrightarrow>
   known_kpoint k A kpoint \<Longrightarrow> known_kpoint k A kpoint'"
proof (induction k A cosetrep c j covered kpoint rule: part_loop.induct)
  case (1 k A cosetrep c j covered kpoint)
  show ?case
  proof (cases "j \<le> k - 1")
    case False
    with "1.prems" show ?thesis by (subst (asm) part_loop.simps) simp
  next
    case True
    with "1.prems"(1) obtain cj p part cov where
      r: "rd c j = Returns cj" "rd cosetrep cj = Returns p" "rd A p = Returns part"
         "rdb covered part = Returns cov"
      and rest: "(if cov then Returns (False, kpoint)
          else obind (wrb covered part True) (\<lambda>covered1.
            part_loop k A cosetrep c (j + 1) covered1 (if part = k then Some p else kpoint)))
          = Returns (injv, kpoint')"
      by (subst (asm) part_loop.simps) (auto simp: obind_eq_Returns)
    show ?thesis
    proof (cases cov)
      case True
      with rest "1.prems"(2) show ?thesis by simp
    next
      case False
      with rest obtain covered1 where
        w: "wrb covered part True = Returns covered1"
        and rec: "part_loop k A cosetrep c (j + 1) covered1 (if part = k then Some p else kpoint)
                  = Returns (injv, kpoint')"
        by (auto simp: obind_eq_Returns)
      have "A ! nat p = part" using r(3) by (auto simp: rd_def split: if_splits)
      then have "known_kpoint k A (if part = k then Some p else kpoint)"
        using "1.prems"(2) by (simp add: known_kpoint_def)
      then show ?thesis
        using "1.IH" [OF True r False w rec] by simp
    qed
  qed
qed

lemma examine_kpoint:
  assumes "examine k cosetrep adj comb A newpoint i kpoint = Returns (injv, kpoint')"
    and "known_kpoint k A kpoint"
  shows "known_kpoint k A kpoint'"
proof -
  from assms(1) obtain c a covered where
    a: "rd A newpoint = Returns a"
    and p: "part_loop k A cosetrep c 1 covered (if a = k then Some newpoint else kpoint)
            = Returns (injv, kpoint')"
    unfolding examine_def by (auto simp: obind_eq_Returns)
  have "A ! nat newpoint = a" using a by (auto simp: rd_def split: if_splits)
  then have "known_kpoint k A (if a = k then Some newpoint else kpoint)"
    using assms(2) by (simp add: known_kpoint_def)
  then show ?thesis by (rule part_loop_kpoint [OF p])
qed

lemma adj_step_Scanned:
  assumes "adj_step n k cosetrep adj comb A newpoint Acount i Rnew cnt kpoint
           = Returns (Scanned Rnew' cnt' kpoint')"
    and "known_kpoint k A kpoint" and "forced_in_last n k A Rnew"
  shows "known_kpoint k A kpoint' \<and> forced_in_last n k A Rnew' \<and> length Rnew' = length Rnew
       \<and> cnt \<le> cnt' \<and> (cnt' = cnt \<longrightarrow> Rnew' = Rnew)
       \<and> (\<forall>p. Rnew ! p \<longrightarrow> p < length Rnew \<longrightarrow> Rnew' ! p)"
proof -
  from assms(1) obtain injv kp1 where
    e: "examine k cosetrep adj comb A newpoint i kpoint = Returns (injv, kp1)"
    and rest: "(if injv then
         (case kp1 of None \<Rightarrow> Undefined
          | Some kp \<Rightarrow> obind (rdb Rnew kp) (\<lambda>b.
                if \<not> b then
                  obind (wrb Rnew kp True) (\<lambda>Rnew1.
                    if (Acount + (cnt + 1)) * k > (k - 1) * n then Returns ReturnedTrue
                    else Returns (Scanned Rnew1 (cnt + 1) kp1))
                else Returns (Scanned Rnew cnt kp1)))
       else Returns (Scanned Rnew cnt kp1)) = Returns (Scanned Rnew' cnt' kpoint')"
    unfolding adj_step_def by (auto simp: obind_eq_Returns)
  have k1: "known_kpoint k A kp1" by (rule examine_kpoint [OF e assms(2)])
  show ?thesis
  proof (cases injv)
    case False
    with rest k1 assms(3) show ?thesis by simp
  next
    case True
    with rest obtain kp b where kp: "kp1 = Some kp" and b: "rdb Rnew kp = Returns b"
      and rest2: "(if \<not> b then
                  obind (wrb Rnew kp True) (\<lambda>Rnew1.
                    if (Acount + (cnt + 1)) * k > (k - 1) * n then Returns ReturnedTrue
                    else Returns (Scanned Rnew1 (cnt + 1) kp1))
                else Returns (Scanned Rnew cnt kp1)) = Returns (Scanned Rnew' cnt' kpoint')"
      by (auto simp: obind_eq_Returns split: option.splits)
    show ?thesis
    proof (cases b)
      case True
      with rest2 k1 assms(3) show ?thesis by simp
    next
      case False
      with rest2 have new: "Rnew' = Rnew[nat kp := True]" "cnt' = cnt + 1" "kpoint' = kp1"
        by (auto simp: obind_eq_Returns wrb_def split: if_splits)
      have "A ! nat kp = k" using k1 kp by (simp add: known_kpoint_def)
      then have "forced_in_last n k A Rnew'"
        using assms(3) unfolding new forced_in_last_def
        by (metis nth_list_update_neq)
      moreover have "\<forall>p. Rnew ! p \<longrightarrow> p < length Rnew \<longrightarrow> Rnew' ! p"
      proof (intro allI impI)
        fix p assume "Rnew ! p" "p < length Rnew"
        then show "Rnew' ! p"
          unfolding new(1) by (cases "p = nat kp") simp_all
      qed
      ultimately show ?thesis using new k1 by simp
    qed
  qed
qed

lemma adj_loop_Scanned:
  "adj_loop n k cosetrep adj comb A newpoint Acount len i Rnew cnt kpoint
     = Returns (Scanned Rnew' cnt' kpoint') \<Longrightarrow>
   known_kpoint k A kpoint \<Longrightarrow> forced_in_last n k A Rnew \<Longrightarrow>
   known_kpoint k A kpoint' \<and> forced_in_last n k A Rnew' \<and> length Rnew' = length Rnew
     \<and> cnt \<le> cnt' \<and> (cnt' = cnt \<longrightarrow> Rnew' = Rnew)
     \<and> (\<forall>p. Rnew ! p \<longrightarrow> p < length Rnew \<longrightarrow> Rnew' ! p)"
proof (induction n k cosetrep adj comb A newpoint Acount len i Rnew cnt kpoint
       rule: adj_loop.induct)
  case (1 n k cosetrep adj comb A newpoint Acount len i Rnew cnt kpoint)
  show ?case
  proof (cases "i \<le> len")
    case False
    with "1.prems" show ?thesis by (subst (asm) adj_loop.simps) simp
  next
    case True
    have eq: "adj_loop n k cosetrep adj comb A newpoint Acount len i Rnew cnt kpoint =
        obind (adj_step n k cosetrep adj comb A newpoint Acount i Rnew cnt kpoint)
          (\<lambda>s. case s of
                 ReturnedTrue \<Rightarrow> Returns ReturnedTrue
               | Scanned Rnew1 Rnewcount1 kpoint1 \<Rightarrow>
                   adj_loop n k cosetrep adj comb A newpoint Acount len (i + 1)
                     Rnew1 Rnewcount1 kpoint1)"
      using True by (subst adj_loop.simps) simp
    from "1.prems"(1) obtain s where
      st0: "adj_step n k cosetrep adj comb A newpoint Acount i Rnew cnt kpoint = Returns s"
      and rec0: "(case s of
                 ReturnedTrue \<Rightarrow> Returns ReturnedTrue
               | Scanned Rnew1 Rnewcount1 kpoint1 \<Rightarrow>
                   adj_loop n k cosetrep adj comb A newpoint Acount len (i + 1)
                     Rnew1 Rnewcount1 kpoint1) = Returns (Scanned Rnew' cnt' kpoint')"
      unfolding eq obind_eq_Returns by blast
    from rec0 obtain R1 c1 k1 where s: "s = Scanned R1 c1 k1"
      by (cases s) simp_all
    note st = st0 [unfolded s]
    have rec: "adj_loop n k cosetrep adj comb A newpoint Acount len (i + 1) R1 c1 k1
           = Returns (Scanned Rnew' cnt' kpoint')"
      using rec0 unfolding s by simp
    note S = adj_step_Scanned [OF st "1.prems"(2,3)]
    note IH = "1.IH" [OF True st refl rec]
    have I: "known_kpoint k A kpoint' \<and> forced_in_last n k A Rnew' \<and> length Rnew' = length R1
     \<and> c1 \<le> cnt' \<and> (cnt' = c1 \<longrightarrow> Rnew' = R1)
     \<and> (\<forall>p. R1 ! p \<longrightarrow> p < length R1 \<longrightarrow> Rnew' ! p)"
      using IH S by blast
    show ?thesis using S I by auto
  qed
qed

lemma pick_loop_Some:
  "pick_loop n Rnew i = Returns (Some r) \<Longrightarrow> 1 \<le> i \<Longrightarrow>
   i \<le> r \<and> r \<le> n \<and> nat r < length Rnew \<and> Rnew ! nat r"
proof (induction n Rnew i rule: pick_loop.induct)
  case (1 n Rnew i)
  show ?case
  proof (cases "i \<le> n")
    case False
    with "1.prems" show ?thesis by (subst (asm) pick_loop.simps) simp
  next
    case True
    with "1.prems"(1) obtain b where b: "rdb Rnew i = Returns b"
      and rest: "(if b then Returns (Some i) else pick_loop n Rnew (i + 1)) = Returns (Some r)"
      by (subst (asm) pick_loop.simps) (auto simp: obind_eq_Returns)
    show ?thesis
    proof (cases b)
      case True
      with rest b \<open>i \<le> n\<close> show ?thesis by (auto simp: rdb_def split: if_splits)
    next
      case False
      with rest have "pick_loop n Rnew (i + 1) = Returns (Some r)" by simp
      from "1.IH" [OF True b False this] "1.prems"(2) show ?thesis by simp
    qed
  qed
qed

lemma parts_loop_restores:
  "parts_loop call k r i A = Returns (True, A') \<Longrightarrow>
   (\<And>v A2. call (A[nat r := v]) = Returns (True, A2) \<Longrightarrow> A2 = A[nat r := v]) \<Longrightarrow>
   A ! nat r = k \<Longrightarrow> A' = A"
proof (induction call k r i A rule: parts_loop.induct)
  case (1 call k r i A)
  show ?case
  proof (cases "i \<le> k - 1")
    case False
    with "1.prems"(1) show ?thesis by (subst (asm) parts_loop.simps) simp
  next
    case True
    with "1.prems"(1) obtain A1 tp A2 where
      w: "wr A r i = Returns A1" and c: "call A1 = Returns (tp, A2)"
      and rest: "(if \<not> tp then Returns (False, A2)
                  else obind (wr A2 r k) (\<lambda>A3. parts_loop call k r (i + 1) A3))
                 = Returns (True, A')"
      by (subst (asm) parts_loop.simps) (auto simp: obind_eq_Returns)
    from rest have tp: tp by (auto split: if_splits)
    with rest obtain A3 where w3: "wr A2 r k = Returns A3"
      and rec: "parts_loop call k r (i + 1) A3 = Returns (True, A')"
      by (auto simp: obind_eq_Returns)
    have A1: "A1 = A[nat r := i]" using w by (auto simp: wr_def split: if_splits)
    have A2: "A2 = A[nat r := i]" using c tp "1.prems"(2) A1 by simp
    have A3: "A3 = A" using w3 A2 "1.prems"(3) by (auto simp: wr_def split: if_splits)
    have tp': "\<not> \<not> tp" using tp by simp
    show ?thesis
      using "1.IH" [OF True w c refl tp' w3 rec] "1.prems"(2,3) A3 by simp
  qed
qed

lemma TransversalProperty_restores:
  "TransversalProperty depth malloc n k cosetreps adj comb A R newpoint = Returns (True, A') \<Longrightarrow>
   forced_in_last n k A R \<Longrightarrow> A' = A"
proof (induction depth arbitrary: A R newpoint A')
  case 0
  then show ?case by simp
next
  case (Suc depth)
  from Suc.prems(1) obtain Acount Rnew0 cnt0 cosetrep len s where
    cl: "count_loop n k A R 1 0 (replicate (nat (n + 1)) False) 0 = Returns (Acount, Rnew0, cnt0)"
    and al: "adj_loop n k cosetrep adj comb A newpoint Acount len 1 Rnew0 cnt0 None = Returns s"
    and rest: "(case s of
             ReturnedTrue \<Rightarrow> Returns (True, A)
           | Scanned Rnew1 Rnewcount1 kpoint \<Rightarrow>
               if Rnewcount1 = 0 then Returns (False, A)
               else
                 obind (pick_loop n Rnew1 1) (\<lambda>pick.
                   case pick of
                     None \<Rightarrow> Undefined
                   | Some r \<Rightarrow>
                       obind (wrb Rnew1 r False) (\<lambda>Rnew2.
                         parts_loop
                           (\<lambda>A1. TransversalProperty depth malloc n k cosetreps adj comb A1 Rnew2 r)
                           k r 1 A))) = Returns (True, A')"
    by (auto simp: obind_eq_Returns split: if_splits)
  show ?case
  proof (cases s)
    case ReturnedTrue
    with rest show ?thesis by simp
  next
    case (Scanned Rnew1 cnt1 kp)
    with rest obtain r Rnew2 where
      pk: "pick_loop n Rnew1 1 = Returns (Some r)"
      and w: "wrb Rnew1 r False = Returns Rnew2"
      and pl: "parts_loop
                 (\<lambda>A1. TransversalProperty depth malloc n k cosetreps adj comb A1 Rnew2 r)
                 k r 1 A = Returns (True, A')"
      by (auto simp: obind_eq_Returns split: if_splits option.splits)
    have c0: "\<forall>p. 1 \<le> p \<and> p \<le> n \<longrightarrow> Rnew0 ! nat p = R ! nat p"
      using count_loop_Returns [OF cl] by simp
    have f0: "forced_in_last n k A Rnew0"
      unfolding forced_in_last_def
    proof (intro allI impI)
      fix p assume p: "1 \<le> p \<and> p \<le> n \<and> Rnew0 ! nat p"
      then have "R ! nat p" using c0 by blast
      then show "A ! nat p = k"
        using p Suc.prems(2) by (simp add: forced_in_last_def)
    qed
    have f1: "forced_in_last n k A Rnew1"
      using adj_loop_Scanned [OF al [unfolded Scanned] _ f0] by (simp add: known_kpoint_def)
    have r: "1 \<le> r" "r \<le> n" "Rnew1 ! nat r"
      using pick_loop_Some [OF pk] by simp_all
    have Ar: "A ! nat r = k" using f1 r by (simp add: forced_in_last_def)
    have R2: "Rnew2 = Rnew1[nat r := False]"
      using w by (auto simp: wrb_def split: if_splits)
    have f2: "forced_in_last n k (A[nat r := v]) Rnew2" for v
      unfolding forced_in_last_def
    proof (intro allI impI)
      fix p assume p: "1 \<le> p \<and> p \<le> n \<and> Rnew2 ! nat p"
      have "nat p \<noteq> nat r"
      proof
        assume "nat p = nat r"
        then have "\<not> Rnew2 ! nat p"
          unfolding R2 using pick_loop_Some [OF pk] by simp
        with p show False by simp
      qed
      then show "A[nat r := v] ! nat p = k"
        using p f1 unfolding R2 forced_in_last_def by simp
    qed
    show ?thesis
    proof (rule parts_loop_restores [OF pl _ Ar])
      fix v A2
      assume "TransversalProperty depth malloc n k cosetreps adj comb (A[nat r := v]) Rnew2 r
              = Returns (True, A2)"
      then show "A2 = A[nat r := v]" by (rule Suc.IH [OF _ f2])
    qed
  qed
qed

lemma count_loop_total:
  "1 \<le> i \<Longrightarrow> nat n < length A \<Longrightarrow> nat n < length R \<Longrightarrow> nat n < length Rnew \<Longrightarrow>
   \<exists>res. count_loop n k A R i Acount Rnew cnt = Returns res"
proof (induction n k A R i Acount Rnew cnt rule: count_loop.induct)
  case (1 n k A R i Acount Rnew cnt)
  show ?case
  proof (cases "i \<le> n")
    case False
    then show ?thesis by (subst count_loop.simps) simp
  next
    case True
    have i: "nat i < length A" "nat i < length R" "nat i < length Rnew"
      using True "1.prems" by simp_all
    have a: "rd A i = Returns (A ! nat i)" using i "1.prems"(1) by (simp add: rd_def)
    have b: "rdb R i = Returns (R ! nat i)" using i "1.prems"(1) by (simp add: rdb_def)
    have w: "wrb Rnew i (R ! nat i) = Returns (Rnew[nat i := R ! nat i])"
      using i "1.prems"(1) by (simp add: wrb_def)
    have "\<exists>res. count_loop n k A R (i + 1) (if A ! nat i < k then Acount + 1 else Acount)
              (Rnew[nat i := R ! nat i]) (if R ! nat i then cnt + 1 else cnt) = Returns res"
      using "1.IH" [OF True a b w] "1.prems" by simp
    then show ?thesis
      using True a b w by (subst count_loop.simps) simp
  qed
qed

lemma adj_loop_unfold:
  "i \<le> len \<Longrightarrow>
   adj_loop n k cosetrep adj comb A newpoint Acount len i Rnew cnt kpoint =
     obind (adj_step n k cosetrep adj comb A newpoint Acount i Rnew cnt kpoint)
       (\<lambda>s. case s of
              ReturnedTrue \<Rightarrow> Returns ReturnedTrue
            | Scanned Rnew1 Rnewcount1 kpoint1 \<Rightarrow>
                adj_loop n k cosetrep adj comb A newpoint Acount len (i + 1)
                  Rnew1 Rnewcount1 kpoint1)"
  by (subst adj_loop.simps) simp

lemma adj_loop_done:
  "\<not> i \<le> len \<Longrightarrow>
   adj_loop n k cosetrep adj comb A newpoint Acount len i Rnew cnt kpoint
   = Returns (Scanned Rnew cnt kpoint)"
  by (subst adj_loop.simps) simp

lemma adj_loop_split:
  "adj_loop n k cosetrep adj comb A newpoint Acount (i - 1) i0 Rnew cnt kpoint
     = Returns (Scanned Rnew1 cnt1 kpoint1) \<Longrightarrow>
   i0 \<le> i \<Longrightarrow> i - 1 \<le> len \<Longrightarrow>
   adj_loop n k cosetrep adj comb A newpoint Acount len i0 Rnew cnt kpoint
   = adj_loop n k cosetrep adj comb A newpoint Acount len i Rnew1 cnt1 kpoint1"
proof (induction n k cosetrep adj comb A newpoint Acount "i - 1" i0 Rnew cnt kpoint
       rule: adj_loop.induct)
  case (1 n k cosetrep adj comb A newpoint Acount i0 Rnew cnt kpoint)
  show ?case
  proof (cases "i0 \<le> i - 1")
    case False
    with "1.prems" have "i0 = i" by simp
    moreover have "Rnew1 = Rnew \<and> cnt1 = cnt \<and> kpoint1 = kpoint"
      using "1.prems"(1) False by (simp add: adj_loop_done)
    ultimately show ?thesis by simp
  next
    case True
    from "1.prems"(1) obtain s where
      st0: "adj_step n k cosetrep adj comb A newpoint Acount i0 Rnew cnt kpoint = Returns s"
      and rec0: "(case s of
                 ReturnedTrue \<Rightarrow> Returns ReturnedTrue
               | Scanned Rnew2 Rnewcount2 kpoint2 \<Rightarrow>
                   adj_loop n k cosetrep adj comb A newpoint Acount (i - 1) (i0 + 1)
                     Rnew2 Rnewcount2 kpoint2) = Returns (Scanned Rnew1 cnt1 kpoint1)"
      unfolding adj_loop_unfold [OF True] obind_eq_Returns by blast
    from rec0 obtain R2 c2 k2 where s: "s = Scanned R2 c2 k2"
      by (cases s) simp_all
    have rec: "adj_loop n k cosetrep adj comb A newpoint Acount (i - 1) (i0 + 1) R2 c2 k2
           = Returns (Scanned Rnew1 cnt1 kpoint1)"
      using rec0 unfolding s by simp
    have le: "i0 + 1 \<le> i" using True by simp
    have IH: "adj_loop n k cosetrep adj comb A newpoint Acount len (i0 + 1) R2 c2 k2
        = adj_loop n k cosetrep adj comb A newpoint Acount len i Rnew1 cnt1 kpoint1"
      using "1.hyps" [OF True st0 [unfolded s] refl rec le "1.prems"(3)] .
    have i0: "i0 \<le> len" using True "1.prems"(3) by simp
    have "adj_loop n k cosetrep adj comb A newpoint Acount len i0 Rnew cnt kpoint
        = adj_loop n k cosetrep adj comb A newpoint Acount len (i0 + 1) R2 c2 k2"
      unfolding adj_loop_unfold [OF i0, of n k cosetrep adj comb A newpoint Acount Rnew cnt kpoint]
      unfolding st0 s by simp
    then show ?thesis using IH by simp
  qed
qed

lemma examine_cong:
  "rd adj' i = rd adj i \<Longrightarrow>
   examine k cosetrep adj' comb A newpoint i kpoint = examine k cosetrep adj comb A newpoint i kpoint"
  by (simp add: examine_def)

lemma adj_step_cong:
  "rd adj' i = rd adj i \<Longrightarrow>
   adj_step n k cosetrep adj' comb A newpoint Acount i Rnew cnt kpoint
   = adj_step n k cosetrep adj comb A newpoint Acount i Rnew cnt kpoint"
  by (simp add: adj_step_def examine_cong [of adj' i adj])

lemma adj_loop_cong:
  "(\<forall>j. i \<le> j \<and> j \<le> len \<longrightarrow> rd adj' j = rd adj j) \<Longrightarrow>
   adj_loop n k cosetrep adj' comb A newpoint Acount len i Rnew cnt kpoint
   = adj_loop n k cosetrep adj comb A newpoint Acount len i Rnew cnt kpoint"
proof (induction n k cosetrep adj comb A newpoint Acount len i Rnew cnt kpoint
       rule: adj_loop.induct)
  case (1 n k cosetrep adj comb A newpoint Acount len i Rnew cnt kpoint)
  show ?case
  proof (cases "i \<le> len")
    case False
    then show ?thesis by (simp add: adj_loop_done)
  next
    case True
    have st: "adj_step n k cosetrep adj' comb A newpoint Acount i Rnew cnt kpoint
        = adj_step n k cosetrep adj comb A newpoint Acount i Rnew cnt kpoint"
      using "1.prems" True by (intro adj_step_cong) simp
    have rec: "adj_loop n k cosetrep adj' comb A newpoint Acount len (i + 1) R1 c1 k1
        = adj_loop n k cosetrep adj comb A newpoint Acount len (i + 1) R1 c1 k1"
      if "adj_step n k cosetrep adj comb A newpoint Acount i Rnew cnt kpoint
          = Returns (Scanned R1 c1 k1)" for R1 c1 k1
      using "1.IH" [OF True that refl] "1.prems" by simp
    show ?thesis
    proof (cases "adj_step n k cosetrep adj comb A newpoint Acount i Rnew cnt kpoint")
      case (Returns s)
      show ?thesis
      proof (cases s)
        case ReturnedTrue
        then show ?thesis
          unfolding adj_loop_unfold [OF True] st Returns by simp
      next
        case (Scanned R1 c1 k1)
        show ?thesis
          unfolding adj_loop_unfold [OF True] st Returns Scanned
          using rec [OF Returns [unfolded Scanned]] by simp
      qed
    qed (simp_all add: adj_loop_unfold [OF True] st)
  qed
qed


lemma adj_step_mono:
  assumes "adj_step n k cosetrep adj comb A newpoint Acount i Rnew cnt kpoint
           = Returns (Scanned Rnew' cnt' kpoint')"
  shows "cnt \<le> cnt'"
proof -
  from assms obtain injv kp1 where
    rest: "(if injv then
         (case kp1 of None \<Rightarrow> Undefined
          | Some kp \<Rightarrow> obind (rdb Rnew kp) (\<lambda>b.
                if \<not> b then
                  obind (wrb Rnew kp True) (\<lambda>Rnew1.
                    if (Acount + (cnt + 1)) * k > (k - 1) * n then Returns ReturnedTrue
                    else Returns (Scanned Rnew1 (cnt + 1) kp1))
                else Returns (Scanned Rnew cnt kp1)))
       else Returns (Scanned Rnew cnt kp1)) = Returns (Scanned Rnew' cnt' kpoint')"
    unfolding adj_step_def by (auto simp: obind_eq_Returns)
  then show ?thesis
    by (auto simp: obind_eq_Returns split: if_splits option.splits)
qed

lemma adj_loop_mono:
  "adj_loop n k cosetrep adj comb A newpoint Acount len i Rnew cnt kpoint
     = Returns (Scanned Rnew' cnt' kpoint') \<Longrightarrow> cnt \<le> cnt'"
proof (induction n k cosetrep adj comb A newpoint Acount len i Rnew cnt kpoint
       rule: adj_loop.induct)
  case (1 n k cosetrep adj comb A newpoint Acount len i Rnew cnt kpoint)
  show ?case
  proof (cases "i \<le> len")
    case False
    with "1.prems" show ?thesis by (simp add: adj_loop_done)
  next
    case True
    from "1.prems"(1) obtain s where
      st0: "adj_step n k cosetrep adj comb A newpoint Acount i Rnew cnt kpoint = Returns s"
      and rec0: "(case s of
                 ReturnedTrue \<Rightarrow> Returns ReturnedTrue
               | Scanned Rnew1 Rnewcount1 kpoint1 \<Rightarrow>
                   adj_loop n k cosetrep adj comb A newpoint Acount len (i + 1)
                     Rnew1 Rnewcount1 kpoint1) = Returns (Scanned Rnew' cnt' kpoint')"
      unfolding adj_loop_unfold [OF True] obind_eq_Returns by blast
    from rec0 obtain R1 c1 k1 where s: "s = Scanned R1 c1 k1"
      by (cases s) simp_all
    have rec: "adj_loop n k cosetrep adj comb A newpoint Acount len (i + 1) R1 c1 k1
           = Returns (Scanned Rnew' cnt' kpoint')"
      using rec0 unfolding s by simp
    have "cnt \<le> c1" by (rule adj_step_mono [OF st0 [unfolded s]])
    moreover have "c1 \<le> cnt'" by (rule "1.IH" [OF True st0 [unfolded s] refl rec])
    ultimately show ?thesis by simp
  qed
qed

lemma TransversalProperty_scan:
  assumes "malloc (unsigned (n + 1) * sizeof_bool)" and "malloc (unsigned (k + 1) * sizeof_bool)"
    and "count_loop n k A R 1 0 (replicate (nat (n + 1)) False) 0
         = Returns (Acount, Rnew0, Rnewcount0)"
    and "row cosetreps newpoint = Returns cosetrep"
    and "rd adj 0 = Returns len"
    and "adj_loop n k cosetrep adj comb A newpoint Acount len 1 Rnew0 Rnewcount0 None = Returns s"
  shows "TransversalProperty (Suc depth) malloc n k cosetreps adj comb A R newpoint =
     (case s of
        ReturnedTrue \<Rightarrow> Returns (True, A)
      | Scanned Rnew1 Rnewcount1 kpoint \<Rightarrow>
          if Rnewcount1 = 0 then Returns (False, A)
          else
            obind (pick_loop n Rnew1 1) (\<lambda>pick.
              case pick of
                None \<Rightarrow> Undefined
              | Some r \<Rightarrow>
                  obind (wrb Rnew1 r False) (\<lambda>Rnew2.
                    parts_loop
                      (\<lambda>A1. TransversalProperty depth malloc n k cosetreps adj comb A1 Rnew2 r)
                      k r 1 A)))"
  using assms by simp

text \<open>
  C3. Let the entries before \<open>i\<close> be scanned without a return, and let the entry \<open>i\<close>
  give a forced point \<open>kp\<close> that is not yet in the working set. If the count then
  passes the threshold, or if the counts passed it before the scan (and \<open>k \<ge> 0\<close>),
  the call returns true; and so does the call on every adjacency list that agrees
  with \<^verbatim>\<open>adj\<close> up to the entry \<open>i\<close>, whatever its later entries are.
\<close>

theorem early_success:
  assumes "malloc (unsigned (n + 1) * sizeof_bool)" and "malloc (unsigned (k + 1) * sizeof_bool)"
    and "count_loop n k A R 1 0 (replicate (nat (n + 1)) False) 0
         = Returns (Acount, Rnew0, Rnewcount0)"
    and "row cosetreps newpoint = Returns cosetrep"
    and "rd adj 0 = Returns len" and "1 \<le> i" and "i \<le> len"
    and "adj_loop n k cosetrep adj comb A newpoint Acount (i - 1) 1 Rnew0 Rnewcount0 None
         = Returns (Scanned Rnew Rnewcount kpoint)"
    and "examine k cosetrep adj comb A newpoint i kpoint = Returns (True, Some kp)"
    and "rdb Rnew kp = Returns False"
    and "(k - 1) * n < (Acount + (Rnewcount + 1)) * k
         \<or> (0 \<le> k \<and> (k - 1) * n < (Acount + Rnewcount0) * k)"
    and "\<forall>j. 0 \<le> j \<and> j \<le> i \<longrightarrow> rd adj' j = rd adj j"
  shows "TransversalProperty (Suc depth) malloc n k cosetreps adj' comb A R newpoint
         = Returns (True, A)"
proof -
  have mono: "Rnewcount0 \<le> Rnewcount" by (rule adj_loop_mono [OF assms(8)])
  have thr: "(k - 1) * n < (Acount + (Rnewcount + 1)) * k"
  proof (rule disjE [OF assms(11)])
    assume "0 \<le> k \<and> (k - 1) * n < (Acount + Rnewcount0) * k"
    moreover from this mono have "(Acount + Rnewcount0) * k \<le> (Acount + (Rnewcount + 1)) * k"
      by (intro mult_right_mono) simp_all
    ultimately show ?thesis by simp
  qed
  have len': "rd adj' 0 = Returns len" using assms(5,6,12) by simp
  have pre': "adj_loop n k cosetrep adj' comb A newpoint Acount (i - 1) 1 Rnew0 Rnewcount0 None
         = Returns (Scanned Rnew Rnewcount kpoint)"
    using assms(8,12) by (subst adj_loop_cong [of 1 "i - 1" adj' adj]) simp_all
  have ex': "examine k cosetrep adj' comb A newpoint i kpoint = Returns (True, Some kp)"
    using assms(9,6,12) by (subst examine_cong [of adj' i adj]) simp_all
  have w: "wrb Rnew kp True = Returns (Rnew[nat kp := True])"
    using assms(10) by (auto simp: rdb_def wrb_def split: if_splits)
  have step: "adj_step n k cosetrep adj' comb A newpoint Acount i Rnew Rnewcount kpoint
        = Returns ReturnedTrue"
    unfolding adj_step_def using ex' assms(10) w thr by simp
  have "adj_loop n k cosetrep adj' comb A newpoint Acount len 1 Rnew0 Rnewcount0 None
        = adj_loop n k cosetrep adj' comb A newpoint Acount len i Rnew Rnewcount kpoint"
    using assms(6,7) by (intro adj_loop_split [OF pre']) simp_all
  also have "\<dots> = Returns ReturnedTrue"
    unfolding adj_loop_unfold [OF assms(7)] step by simp
  finally show ?thesis
    using TransversalProperty_scan [OF assms(1,2,3,4) len'] by simp
qed

theorem early_success_witness:
  "TransversalProperty (Suc 0) (\<lambda>s. True) 4 2
     [[], [4, 1, 2, 3, 4], [4, 2, 3, 4, 1], [4, 3, 4, 1, 2], [4, 4, 1, 2, 3]]
     [2, 2, 77] [[], [1, 1], [1, 2], [1, 3], [1, 4]]
     [4, 1, 1, 2, 2] [False, False, False, False, False] 2
   = Returns (True, [4, 1, 1, 2, 2])"
proof -
  let ?m = "\<lambda>s::nat. True"
  let ?cr = "[[], [4, 1, 2, 3, 4], [4, 2, 3, 4, 1], [4, 3, 4, 1, 2], [4, 4, 1, 2, 3]] :: intlist list"
  let ?comb = "[[], [1, 1], [1, 2], [1, 3], [1, 4]] :: intlist list"
  let ?A = "[4, 1, 1, 2, 2] :: intlist"
  let ?R = "[False, False, False, False, False]"
  have h1: "?m (unsigned (4 + 1) * sizeof_bool)" and h2: "?m (unsigned (2 + 1) * sizeof_bool)"
    by simp_all
  have h3: "count_loop 4 2 ?A ?R 1 0 (replicate (nat (4 + 1)) False) 0 = Returns (2, ?R, 0)"
    by (simp add: count_loop.simps cell_simps)
  have h4: "row ?cr 2 = Returns [4, 2, 3, 4, 1]" by (simp add: cell_simps)
  have h5: "rd [2, 2, 4] 0 = Returns 2" by (simp add: cell_simps)
  have h6: "(1::int) \<le> 1" and h7: "(1::int) \<le> 2" by simp_all
  have h8: "adj_loop 4 2 [4, 2, 3, 4, 1] [2, 2, 4] ?comb ?A 2 2 (1 - 1) 1 ?R 0 None
      = Returns (Scanned ?R 0 None)"
    by (simp add: adj_loop.simps)
  have h9: "examine 2 [4, 2, 3, 4, 1] [2, 2, 4] ?comb ?A 2 1 None = Returns (True, Some 3)"
    by (simp add: examine_def part_loop.simps cell_simps)
  have h10: "rdb ?R 3 = Returns False" by (simp add: cell_simps)
  have h11: "(2 - 1) * 4 < (2 + (0 + 1)) * (2::int)
      \<or> (0 \<le> (2::int) \<and> (2 - 1) * 4 < (2 + 0) * (2::int))"
    by simp
  have h12: "\<forall>j. 0 \<le> j \<and> j \<le> 1 \<longrightarrow> rd [2, 2, 77] j = rd [2, 2, 4] j"
  proof (intro allI impI)
    fix j :: int assume "0 \<le> j \<and> j \<le> 1"
    then have "j = 0 \<or> j = 1" by arith
    then show "rd [2, 2, 77] j = rd [2, 2, 4] j" by (auto simp: cell_simps)
  qed
  show ?thesis
    by (rule early_success [OF h1 h2 h3 h4 h5 h6 h7 h8 h9 h10 h11 h12])
qed

text \<open>
  C4. When the scan ends with no forced point at all (\<^verbatim>\<open>Rnewcount\<close> is 0), the call
  returns false. This is so, at once, when the adjacency list is empty and \<^verbatim>\<open>R\<close>
  represents the empty set. A scan that adds nothing to a non-empty \<^verbatim>\<open>R\<close> does not
  end the call: it goes on with a point of \<^verbatim>\<open>R\<close>.
\<close>

theorem dead_end:
  assumes "malloc (unsigned (n + 1) * sizeof_bool)" and "malloc (unsigned (k + 1) * sizeof_bool)"
    and "row cosetreps newpoint = Returns cosetrep"
    and "rd adj 0 = Returns len"
  shows "(count_loop n k A R 1 0 (replicate (nat (n + 1)) False) 0
            = Returns (Acount, Rnew, Rnewcount)
          \<and> adj_loop n k cosetrep adj comb A newpoint Acount len 1 Rnew Rnewcount None
            = Returns (Scanned Rnew1 0 kpoint) \<longrightarrow>
          TransversalProperty (Suc depth) malloc n k cosetreps adj comb A R newpoint
            = Returns (False, A))
       \<and> (len = 0 \<and> 0 \<le> n \<and> nat n < length A \<and> nat n < length R
          \<and> (\<forall>p. 1 \<le> p \<and> p \<le> n \<longrightarrow> \<not> R ! nat p) \<longrightarrow>
          TransversalProperty (Suc depth) malloc n k cosetreps adj comb A R newpoint
            = Returns (False, A))"
proof (intro conjI impI)
  assume "count_loop n k A R 1 0 (replicate (nat (n + 1)) False) 0
            = Returns (Acount, Rnew, Rnewcount)
          \<and> adj_loop n k cosetrep adj comb A newpoint Acount len 1 Rnew Rnewcount None
            = Returns (Scanned Rnew1 0 kpoint)"
  then show "TransversalProperty (Suc depth) malloc n k cosetreps adj comb A R newpoint
            = Returns (False, A)"
    using TransversalProperty_scan [OF assms(1,2) _ assms(3,4)] by simp
next
  assume a: "len = 0 \<and> 0 \<le> n \<and> nat n < length A \<and> nat n < length R
          \<and> (\<forall>p. 1 \<le> p \<and> p \<le> n \<longrightarrow> \<not> R ! nat p)"
  then have "nat n < length (replicate (nat (n + 1)) False)" by simp
  with a obtain Acount Rnew0 cnt0 where
    cl: "count_loop n k A R 1 0 (replicate (nat (n + 1)) False) 0 = Returns (Acount, Rnew0, cnt0)"
    using count_loop_total [of 1 n A R "replicate (nat (n + 1)) False" k 0 0]
    by (metis prod_cases3 order_refl)
  have e: "{p. 1 \<le> p \<and> p \<le> n \<and> R ! nat p} = {}" using a by auto
  have "cnt0 = 0 + int (card {p. 1 \<le> p \<and> p \<le> n \<and> R ! nat p})"
    using count_loop_Returns [OF cl] by simp
  then have c0: "cnt0 = 0" unfolding e by simp
  have "adj_loop n k cosetrep adj comb A newpoint Acount len 1 Rnew0 cnt0 None
        = Returns (Scanned Rnew0 cnt0 None)"
    using a by (simp add: adj_loop_done)
  then show "TransversalProperty (Suc depth) malloc n k cosetreps adj comb A R newpoint
            = Returns (False, A)"
    using TransversalProperty_scan [OF assms(1,2) cl assms(3,4)] c0 by simp
qed

theorem dead_end_witness:
  "TransversalProperty (Suc 0) (\<lambda>s. True) 4 2
     [[], [4, 1, 2, 3, 4], [4, 2, 1, 4, 3], [4, 3, 4, 1, 2], [4, 4, 3, 2, 1]]
     [1, 2] [[], [1, 1], [1, 2], [1, 3], [1, 4]]
     [4, 1, 1, 2, 2] [False, False, False, False, False] 2
   = Returns (False, [4, 1, 1, 2, 2])
 \<and> TransversalProperty (Suc 0) (\<lambda>s. True) 4 2
     [[], [4, 1, 2, 3, 4], [4, 2, 1, 4, 3], [4, 3, 4, 1, 2], [4, 4, 3, 2, 1]]
     [0] [[], [1, 1], [1, 2], [1, 3], [1, 4]]
     [4, 1, 2, 2, 2] [False, False, False, False, False] 1
   = Returns (False, [4, 1, 2, 2, 2])"
proof -
  let ?m = "\<lambda>s::nat. True"
  let ?cr = "[[], [4, 1, 2, 3, 4], [4, 2, 1, 4, 3], [4, 3, 4, 1, 2], [4, 4, 3, 2, 1]] :: intlist list"
  let ?comb = "[[], [1, 1], [1, 2], [1, 3], [1, 4]] :: intlist list"
  let ?R = "[False, False, False, False, False]"
  have h1: "?m (unsigned (4 + 1) * sizeof_bool)" and h2: "?m (unsigned (2 + 1) * sizeof_bool)"
    by simp_all
  have r2: "row ?cr 2 = Returns [4, 2, 1, 4, 3]" and r1: "row ?cr 1 = Returns [4, 1, 2, 3, 4]"
    by (simp_all add: cell_simps)
  have l1: "rd [1, 2] 0 = Returns 1" and l0: "rd [0] 0 = Returns 0"
    by (simp_all add: cell_simps)
  have c: "count_loop 4 2 [4, 1, 1, 2, 2] ?R 1 0 (replicate (nat (4 + 1)) False) 0
      = Returns (2, ?R, 0)"
    by (simp add: count_loop.simps cell_simps)
  have s: "adj_loop 4 2 [4, 2, 1, 4, 3] [1, 2] ?comb [4, 1, 1, 2, 2] 2 2 1 1 ?R 0 None
      = Returns (Scanned ?R 0 None)"
    by (simp add: TransversalProperty_simps cell_simps)
  have e: "\<forall>p. 1 \<le> p \<and> p \<le> 4 \<longrightarrow> \<not> ?R ! nat p"
  proof (intro allI impI)
    fix p :: int assume "1 \<le> p \<and> p \<le> 4"
    then have "p = 1 \<or> p = 2 \<or> p = 3 \<or> p = 4" by arith
    then show "\<not> ?R ! nat p" by (auto simp: eval_nat_numeral)
  qed
  note a = dead_end [OF h1 h2 r2 l1, where A = "[4, 1, 1, 2, 2]" and R = ?R and Acount = 2
      and Rnew = ?R and Rnewcount = 0 and comb = ?comb and ?Rnew1.0 = ?R and kpoint = None
      and depth = 0 and n = 4 and k = 2]
  note b = dead_end [OF h1 h2 r1 l0, where A = "[4, 1, 2, 2, 2]" and R = ?R and Acount = 2
      and Rnew = ?R and Rnewcount = 0 and comb = ?comb and ?Rnew1.0 = ?R and kpoint = None
      and depth = 0 and n = 4 and k = 2]
  show ?thesis
    using a b c s e by simp
qed

theorem dead_end_counterexample:
  "count_loop 4 2 [4, 1, 2, 2, 2] [False, False, True, False, True] 1 0
     (replicate (nat (4 + 1)) False) 0
   = Returns (1, [False, False, True, False, True], 2)
 \<and> adj_loop 4 2 [4, 1, 2, 3, 4] [2, 2, 4] [[], [1, 1], [1, 2], [1, 3], [1, 4]]
     [4, 1, 2, 2, 2] 1 1 2 1 [False, False, True, False, True] 2 None
   = Returns (Scanned [False, False, True, False, True] 2 (Some 4))
 \<and> TransversalProperty 2 (\<lambda>s. True) 4 2
     [[], [4, 1, 2, 3, 4], [4, 2, 3, 4, 1], [4, 3, 4, 1, 2], [4, 4, 1, 2, 3]]
     [2, 2, 4] [[], [1, 1], [1, 2], [1, 3], [1, 4]]
     [4, 1, 2, 2, 2] [False, False, True, False, True] 1
   = Returns (True, [4, 1, 2, 2, 2])"
  by (simp add: TransversalProperty_simps cell_simps)

text \<open>
  C2. A call that returns true on arguments with the set of \<^verbatim>\<open>R\<close> inside the last
  part leaves the buffer \<^verbatim>\<open>A\<close> as it was passed in. A call that returns false
  returns from inside the loop over the parts, before \<^verbatim>\<open>A[r]=k\<close>: the entries it
  reassigned stay reassigned.
\<close>

theorem buffer_restored_on_true:
  assumes "forced_in_last n k A R"
    and "TransversalProperty depth malloc n k cosetreps adj comb A R newpoint = Returns (True, A')"
  shows "A' = A"
  using TransversalProperty_restores [OF assms(2,1)] .

theorem buffer_restored_on_true_witness:
  "\<exists>A'. TransversalProperty 2 (\<lambda>s. True) 4 2
     [[], [4, 1, 2, 3, 4], [4, 2, 3, 4, 1], [4, 3, 4, 1, 2], [4, 4, 1, 2, 3]]
     [2, 2, 4] [[], [1, 1], [1, 2], [1, 3], [1, 4]]
     [4, 1, 2, 2, 2] [False, False, True, False, True] 1
   = Returns (True, A') \<and> A' = [4, 1, 2, 2, 2]"
proof -
  let ?R = "[False, False, True, False, True]"
  have f: "forced_in_last 4 2 [4, 1, 2, 2, 2] ?R"
    unfolding forced_in_last_def
  proof (intro allI impI)
    fix p :: int assume p: "1 \<le> p \<and> p \<le> 4 \<and> ?R ! nat p"
    then have "p = 1 \<or> p = 2 \<or> p = 3 \<or> p = 4" by arith
    then show "[4, 1, 2, 2, 2] ! nat p = (2::int)" using p by (auto simp: eval_nat_numeral)
  qed
  obtain b A' where r: "TransversalProperty 2 (\<lambda>s. True) 4 2
     [[], [4, 1, 2, 3, 4], [4, 2, 3, 4, 1], [4, 3, 4, 1, 2], [4, 4, 1, 2, 3]]
     [2, 2, 4] [[], [1, 1], [1, 2], [1, 3], [1, 4]]
     [4, 1, 2, 2, 2] ?R 1 = Returns (True, A')"
    by (simp add: TransversalProperty_simps cell_simps)
  from buffer_restored_on_true [OF f r] r show ?thesis by blast
qed

theorem buffer_restored_counterexample:
  "TransversalProperty 2 (\<lambda>s. True) 4 2
     [[], [4, 1, 2, 3, 4], [4, 2, 1, 4, 3], [4, 3, 4, 1, 2], [4, 4, 3, 2, 1]]
     [1, 2] [[], [1, 1], [1, 2], [1, 3], [1, 4]]
     [4, 1, 2, 2, 2] [False, False, False, False, False] 1
   = Returns (False, [4, 1, 1, 2, 2])"
  by (simp add: TransversalProperty_simps cell_simps)


section \<open>Termination of TransversalProperty\<close>

text \<open>
  \<open>wf_tables\<close>: the tables have the sizes the driver gives them and hold points and
  indices in range. \<open>wf_partition\<close>: \<^verbatim>\<open>A\<close> labels every point with a part in \<open>1..k\<close>.
\<close>

definition wf_tables :: "int \<Rightarrow> int \<Rightarrow> intlist list \<Rightarrow> intlist \<Rightarrow> intlist list \<Rightarrow> bool" where
  "wf_tables n k cosetreps adj comb =
     (1 < k \<and> 0 \<le> n \<and> length cosetreps = nat n + 1
      \<and> (\<forall>p. 1 \<le> p \<and> p \<le> n \<longrightarrow>
            length (cosetreps ! nat p) = nat n + 1
            \<and> (\<forall>x. 1 \<le> x \<and> x \<le> n \<longrightarrow>
                  1 \<le> cosetreps ! nat p ! nat x \<and> cosetreps ! nat p ! nat x \<le> n))
      \<and> 0 \<le> Length adj \<and> nat (Length adj) < length adj
      \<and> (\<forall>i. 1 \<le> i \<and> i \<le> Length adj \<longrightarrow>
            1 \<le> adj ! nat i \<and> nat (adj ! nat i) < length comb
            \<and> nat k \<le> length (comb ! nat (adj ! nat i))
            \<and> (\<forall>j. 1 \<le> j \<and> j \<le> k - 1 \<longrightarrow>
                  1 \<le> comb ! nat (adj ! nat i) ! nat j \<and> comb ! nat (adj ! nat i) ! nat j \<le> n)))"

definition wf_partition :: "int \<Rightarrow> int \<Rightarrow> intlist \<Rightarrow> bool" where
  "wf_partition n k A =
     (nat n < length A \<and> (\<forall>p. 1 \<le> p \<and> p \<le> n \<longrightarrow> 1 \<le> A ! nat p \<and> A ! nat p \<le> k))"

definition kpoint_in_range :: "int \<Rightarrow> int option \<Rightarrow> bool" where
  "kpoint_in_range n kpoint = (case kpoint of None \<Rightarrow> True | Some q \<Rightarrow> 1 \<le> q \<and> q \<le> n)"

lemma nat_lt_Suc: "a \<le> (b::int) \<Longrightarrow> nat a < Suc (nat b)"
  by (simp add: nat_mono less_Suc_eq_le)

lemma marked_insert:
  assumes "1 \<le> part" "part \<le> k" "nat k < length covered" "\<not> covered ! nat part"
  shows "card {q. 1 \<le> q \<and> q \<le> k \<and> covered[nat part := True] ! nat q}
         = Suc (card {q. 1 \<le> q \<and> q \<le> k \<and> covered ! nat q})"
proof -
  have fin: "finite {q. 1 \<le> q \<and> q \<le> k \<and> covered ! nat q}"
    by (rule finite_subset [of _ "{1..k}"]) auto
  have "{q. 1 \<le> q \<and> q \<le> k \<and> covered[nat part := True] ! nat q}
        = insert part {q. 1 \<le> q \<and> q \<le> k \<and> covered ! nat q}"
  proof (intro set_eqI iffI)
    fix q assume "q \<in> {q. 1 \<le> q \<and> q \<le> k \<and> covered[nat part := True] ! nat q}"
    then show "q \<in> insert part {q. 1 \<le> q \<and> q \<le> k \<and> covered ! nat q}"
      by (cases "q = part") (auto simp: nth_list_update_neq)
  next
    fix q assume q: "q \<in> insert part {q. 1 \<le> q \<and> q \<le> k \<and> covered ! nat q}"
    show "q \<in> {q. 1 \<le> q \<and> q \<le> k \<and> covered[nat part := True] ! nat q}"
    proof (cases "q = part")
      case True
      have "nat part \<le> nat k" using assms(2) by (rule nat_mono)
      then show ?thesis using True assms by simp
    next
      case False
      then have "nat q \<noteq> nat part" using q assms(1) by auto
      then show ?thesis using q False by (simp add: nth_list_update_neq)
    qed
  qed
  moreover have "part \<notin> {q. 1 \<le> q \<and> q \<le> k \<and> covered ! nat q}"
    using assms(4) by simp
  ultimately show ?thesis using fin by simp
qed

lemma all_marked:
  assumes "card {q. 1 \<le> q \<and> q \<le> k \<and> covered ! nat q} = nat k" "1 \<le> k"
  shows "covered ! nat k"
proof -
  have "{q. 1 \<le> q \<and> q \<le> k \<and> covered ! nat q} \<subseteq> {1..k}" by auto
  moreover have "card {1..k} = nat k" by simp
  ultimately have "{q. 1 \<le> q \<and> q \<le> k \<and> covered ! nat q} = {1..k}"
    using assms(1) by (intro card_subset_eq) simp_all
  moreover have "k \<in> {1..k}" using assms(2) by simp
  ultimately show ?thesis by blast
qed

lemma part_loop_total:
  "wf_partition n k A \<Longrightarrow> length cosetrep = nat n + 1 \<Longrightarrow>
   (\<forall>x. 1 \<le> x \<and> x \<le> n \<longrightarrow> 1 \<le> cosetrep ! nat x \<and> cosetrep ! nat x \<le> n) \<Longrightarrow>
   nat k \<le> length c \<Longrightarrow>
   (\<forall>j. 1 \<le> j \<and> j \<le> k - 1 \<longrightarrow> 1 \<le> c ! nat j \<and> c ! nat j \<le> n) \<Longrightarrow>
   1 \<le> j \<Longrightarrow> j \<le> k \<Longrightarrow> length covered = nat k + 1 \<Longrightarrow>
   card {q. 1 \<le> q \<and> q \<le> k \<and> covered ! nat q} = nat j \<Longrightarrow>
   (covered ! nat k \<longrightarrow> kpoint \<noteq> None) \<Longrightarrow> kpoint_in_range n kpoint \<Longrightarrow>
   \<exists>injv kp. part_loop k A cosetrep c j covered kpoint = Returns (injv, kp)
     \<and> (injv \<longrightarrow> kp \<noteq> None) \<and> kpoint_in_range n kp"
proof (induction k A cosetrep c j covered kpoint rule: part_loop.induct)
  case (1 k A cosetrep c j covered kpoint)
  show ?case
  proof (cases "j \<le> k - 1")
    case False
    with "1.prems" have "j = k" by simp
    then have "covered ! nat k"
      using "1.prems" by (intro all_marked) simp_all
    then have "kpoint \<noteq> None" using "1.prems"(10) by simp
    moreover have "part_loop k A cosetrep c j covered kpoint = Returns (True, kpoint)"
      using False by (subst part_loop.simps) simp
    ultimately show ?thesis
      using "1.prems"(11) by blast
  next
    case True
    let ?cj = "c ! nat j"
    let ?p = "cosetrep ! nat ?cj"
    let ?part = "A ! nat ?p"
    have cj: "1 \<le> ?cj" "?cj \<le> n" using "1.prems"(5,6) True by simp_all
    have p: "1 \<le> ?p" "?p \<le> n" using "1.prems"(3) cj by simp_all
    have part: "1 \<le> ?part" "?part \<le> k"
      using "1.prems"(1) p by (simp_all add: wf_partition_def)
    have r1: "rd c j = Returns ?cj"
      using "1.prems"(4,6) True by (simp add: rd_def)
    have r2: "rd cosetrep ?cj = Returns ?p"
      using "1.prems"(2) cj by (simp add: rd_def nat_lt_Suc)
    have "nat ?p \<le> nat n" using p(2) by (rule nat_mono)
    then have pA: "nat ?p < length A"
      using "1.prems"(1) by (simp add: wf_partition_def)
    have r3: "rd A ?p = Returns ?part"
      using pA p by (simp add: rd_def)
    have r4: "rdb covered ?part = Returns (covered ! nat ?part)"
      using "1.prems"(8) part by (simp add: rdb_def nat_lt_Suc)
    show ?thesis
    proof (cases "covered ! nat ?part")
      case True
      have "part_loop k A cosetrep c j covered kpoint = Returns (False, kpoint)"
        using \<open>j \<le> k - 1\<close> r1 r2 r3 r4 True by (subst part_loop.simps) simp
      then show ?thesis using "1.prems"(11) by blast
    next
      case False
      let ?cov = "covered[nat ?part := True]"
      let ?kp = "if ?part = k then Some ?p else kpoint"
      have w: "wrb covered ?part True = Returns ?cov"
        using "1.prems"(8) part by (simp add: wrb_def nat_lt_Suc)
      have c1: "card {q. 1 \<le> q \<and> q \<le> k \<and> ?cov ! nat q} = nat (j + 1)"
        using marked_insert [OF part _ False] "1.prems"(6,8,9)
        by (simp add: nat_add_distrib)
      have k1: "?cov ! nat k \<longrightarrow> ?kp \<noteq> None"
      proof (cases "?part = k")
        case True
        then show ?thesis by simp
      next
        case False
        then have "nat ?part \<noteq> nat k" using part "1.prems"(6,7) by (simp add: eq_nat_nat_iff)
        then show ?thesis using "1.prems"(10) False by simp
      qed
      have k2: "kpoint_in_range n ?kp"
        using "1.prems"(11) p by (simp add: kpoint_in_range_def)
      have "\<exists>injv kp. part_loop k A cosetrep c (j + 1) ?cov ?kp = Returns (injv, kp)
          \<and> (injv \<longrightarrow> kp \<noteq> None) \<and> kpoint_in_range n kp"
        using "1.IH" [OF True r1 r2 r3 r4 False w "1.prems"(1,2,3,4,5) _ _ _ c1 k1 k2]
          "1.prems"(6,8) True by simp
      moreover have "part_loop k A cosetrep c j covered kpoint
          = part_loop k A cosetrep c (j + 1) ?cov ?kp"
        using True r1 r2 r3 r4 False w by (subst part_loop.simps) simp
      ultimately show ?thesis by simp
    qed
  qed
qed

lemma examine_total:
  assumes "wf_tables n k cosetreps adj comb" and "wf_partition n k A"
    and "1 \<le> newpoint" and "newpoint \<le> n" and "1 \<le> i" and "i \<le> Length adj"
    and "kpoint_in_range n kpoint"
  shows "\<exists>injv kp. examine k (cosetreps ! nat newpoint) adj comb A newpoint i kpoint
            = Returns (injv, kp)
          \<and> (injv \<longrightarrow> kp \<noteq> None) \<and> kpoint_in_range n kp"
proof -
  let ?cosetrep = "cosetreps ! nat newpoint"
  let ?ai = "adj ! nat i"
  let ?c = "comb ! nat ?ai"
  let ?a = "A ! nat newpoint"
  define cov0 where "cov0 = replicate (nat (k + 1)) False"
  let ?cov = "cov0[nat ?a := True]"
  let ?kp = "if ?a = k then Some newpoint else kpoint"
  have k: "1 < k" "0 \<le> n" using assms(1) by (simp_all add: wf_tables_def)
  have cr: "length ?cosetrep = nat n + 1"
    "\<forall>x. 1 \<le> x \<and> x \<le> n \<longrightarrow> 1 \<le> ?cosetrep ! nat x \<and> ?cosetrep ! nat x \<le> n"
    using assms(1,3,4) by (simp_all add: wf_tables_def)
  have ai: "1 \<le> ?ai" "nat ?ai < length comb" "nat k \<le> length ?c"
    "\<forall>j. 1 \<le> j \<and> j \<le> k - 1 \<longrightarrow> 1 \<le> ?c ! nat j \<and> ?c ! nat j \<le> n"
    using assms(1,5,6) by (simp_all add: wf_tables_def)
  have "nat i \<le> nat (Length adj)" using assms(6) by (rule nat_mono)
  then have il: "nat i < length adj" using assms(1) by (simp add: wf_tables_def)
  have r1: "rd adj i = Returns ?ai" using il assms(5) by (simp add: rd_def)
  have r2: "row comb ?ai = Returns ?c" using ai by (simp add: row_def)
  have "nat newpoint \<le> nat n" using assms(4) by (rule nat_mono)
  then have "nat newpoint < length A" using assms(2) by (simp add: wf_partition_def)
  then have r3: "rd A newpoint = Returns ?a" using assms(3) by (simp add: rd_def)
  have a: "1 \<le> ?a" "?a \<le> k" using assms(2,3,4) by (simp_all add: wf_partition_def)
  have len0: "length cov0 = nat k + 1"
    unfolding cov0_def using k by (simp add: nat_add_distrib)
  have w: "wrb cov0 ?a True = Returns ?cov"
    using a len0 by (simp add: wrb_def nat_lt_Suc)
  have none: "\<not> cov0 ! nat q" if "q \<le> k" for q
  proof -
    have "nat q < length cov0" using that len0 by (simp add: nat_lt_Suc)
    then show ?thesis unfolding cov0_def by simp
  qed
  have e0: "{q. 1 \<le> q \<and> q \<le> k \<and> cov0 ! nat q} = {}" using none by blast
  have kl: "nat k < length cov0" using len0 by simp
  have c1: "card {q. 1 \<le> q \<and> q \<le> k \<and> ?cov ! nat q} = nat 1"
    using marked_insert [OF a kl none [OF a(2)]] unfolding e0 by simp
  have k1: "?cov ! nat k \<longrightarrow> ?kp \<noteq> None"
  proof (cases "?a = k")
    case True
    then show ?thesis by simp
  next
    case False
    then have "nat ?a \<noteq> nat k" using a k by (simp add: eq_nat_nat_iff)
    then have "?cov ! nat k = cov0 ! nat k" by simp
    then show ?thesis using none [of k] by simp
  qed
  have k2: "kpoint_in_range n ?kp"
    using assms(3,4,7) by (simp add: kpoint_in_range_def)
  have lc: "length ?cov = nat k + 1" unfolding length_list_update by (rule len0)
  have one: "(1::int) \<le> 1" by simp
  have kk: "1 \<le> k" using k by simp
  have "examine k ?cosetrep adj comb A newpoint i kpoint
        = part_loop k A ?cosetrep ?c 1 ?cov ?kp"
    unfolding examine_def r1 r2 r3 obind.simps cov0_def [symmetric] w ..
  then show ?thesis
    using part_loop_total [OF assms(2) cr ai(3,4) one kk lc c1 k1 k2] by simp
qed

lemma adj_step_total:
  assumes "wf_tables n k cosetreps adj comb" and "wf_partition n k A"
    and "1 \<le> newpoint" and "newpoint \<le> n" and "1 \<le> i" and "i \<le> Length adj"
    and "kpoint_in_range n kpoint" and "length Rnew = nat n + 1"
  shows "\<exists>s. adj_step n k (cosetreps ! nat newpoint) adj comb A newpoint Acount i Rnew cnt kpoint
            = Returns s
          \<and> (\<forall>R' c' kp'. s = Scanned R' c' kp' \<longrightarrow>
                kpoint_in_range n kp' \<and> length R' = nat n + 1)"
proof -
  from examine_total [OF assms(1-7)] obtain injv kp where
    e: "examine k (cosetreps ! nat newpoint) adj comb A newpoint i kpoint = Returns (injv, kp)"
    and some: "injv \<longrightarrow> kp \<noteq> None" and rg: "kpoint_in_range n kp"
    by blast
  show ?thesis
  proof (cases injv)
    case False
    then show ?thesis
      unfolding adj_step_def using e rg assms(8) by simp
  next
    case True
    with some obtain q where q: "kp = Some q" by blast
    then have qr: "1 \<le> q" "q \<le> n" using rg by (simp_all add: kpoint_in_range_def)
    have r: "rdb Rnew q = Returns (Rnew ! nat q)"
      "wrb Rnew q True = Returns (Rnew[nat q := True])"
      using qr assms(8) by (simp_all add: rdb_def wrb_def nat_lt_Suc)
    show ?thesis
      unfolding adj_step_def using e True q r rg assms(8) by simp
  qed
qed

lemma adj_loop_total:
  "wf_tables n k cosetreps adj comb \<Longrightarrow> wf_partition n k A \<Longrightarrow>
   1 \<le> newpoint \<Longrightarrow> newpoint \<le> n \<Longrightarrow> 1 \<le> i \<Longrightarrow> cosetrep = cosetreps ! nat newpoint \<Longrightarrow>
   len = Length adj \<Longrightarrow> kpoint_in_range n kpoint \<Longrightarrow> length Rnew = nat n + 1 \<Longrightarrow>
   \<exists>s. adj_loop n k cosetrep adj comb A newpoint Acount len i Rnew cnt kpoint = Returns s"
proof (induction n k cosetrep adj comb A newpoint Acount len i Rnew cnt kpoint
       rule: adj_loop.induct)
  case (1 n k cosetrep adj comb A newpoint Acount len i Rnew cnt kpoint)
  show ?case
  proof (cases "i \<le> len")
    case False
    then show ?thesis by (simp add: adj_loop_done)
  next
    case True
    then have i: "i \<le> Length adj" using "1.prems"(7) by simp
    from adj_step_total [OF "1.prems"(1,2,3,4,5) i "1.prems"(8,9), of Acount cnt]
    obtain s where
      st: "adj_step n k cosetrep adj comb A newpoint Acount i Rnew cnt kpoint = Returns s"
      and sc: "\<forall>R' c' kp'. s = Scanned R' c' kp' \<longrightarrow>
                kpoint_in_range n kp' \<and> length R' = nat n + 1"
      unfolding "1.prems"(6) by blast
    show ?thesis
    proof (cases s)
      case ReturnedTrue
      then show ?thesis unfolding adj_loop_unfold [OF True] st by simp
    next
      case (Scanned R1 c1 k1)
      have "\<exists>s. adj_loop n k cosetrep adj comb A newpoint Acount len (i + 1) R1 c1 k1 = Returns s"
        using "1.IH" [OF True st [unfolded Scanned] refl "1.prems"(1,2,3,4) _ "1.prems"(6,7)]
          sc Scanned "1.prems"(5) by simp
      then show ?thesis unfolding adj_loop_unfold [OF True] st Scanned by simp
    qed
  qed
qed

lemma adj_step_card:
  assumes "adj_step n k cosetrep adj comb A newpoint Acount i Rnew cnt kpoint
           = Returns (Scanned Rnew' cnt' kpoint')"
    and "length Rnew = nat n + 1"
    and "cnt = int (card {p. 1 \<le> p \<and> p \<le> n \<and> Rnew ! nat p})"
  shows "cnt' = int (card {p. 1 \<le> p \<and> p \<le> n \<and> Rnew' ! nat p})"
proof -
  from assms(1) obtain injv kp1 where
    rest: "(if injv then
         (case kp1 of None \<Rightarrow> Undefined
          | Some kp \<Rightarrow> obind (rdb Rnew kp) (\<lambda>b.
                if \<not> b then
                  obind (wrb Rnew kp True) (\<lambda>Rnew1.
                    if (Acount + (cnt + 1)) * k > (k - 1) * n then Returns ReturnedTrue
                    else Returns (Scanned Rnew1 (cnt + 1) kp1))
                else Returns (Scanned Rnew cnt kp1)))
       else Returns (Scanned Rnew cnt kp1)) = Returns (Scanned Rnew' cnt' kpoint')"
    unfolding adj_step_def by (auto simp: obind_eq_Returns)
  show ?thesis
  proof (cases injv)
    case False
    with rest assms(3) show ?thesis by auto
  next
    case True
    with rest obtain kp b where kp1: "kp1 = Some kp" and b: "rdb Rnew kp = Returns b"
      and rest2: "(if \<not> b then
                  obind (wrb Rnew kp True) (\<lambda>Rnew1.
                    if (Acount + (cnt + 1)) * k > (k - 1) * n then Returns ReturnedTrue
                    else Returns (Scanned Rnew1 (cnt + 1) kp1))
                else Returns (Scanned Rnew cnt kp1)) = Returns (Scanned Rnew' cnt' kpoint')"
      by (auto simp: obind_eq_Returns split: option.splits)
    show ?thesis
    proof (cases b)
      case True
      with rest2 assms(3) show ?thesis by auto
    next
      case False
      with rest2 have new: "Rnew' = Rnew[nat kp := True]" "cnt' = cnt + 1"
        by (auto simp: obind_eq_Returns wrb_def split: if_splits)
      have r: "1 \<le> kp" "nat kp < length Rnew" "\<not> Rnew ! nat kp"
        using b False by (auto simp: rdb_def split: if_splits)
      then have kn: "kp \<le> n" using assms(2) by simp
      have nl: "nat n < length Rnew" using assms(2) by simp
      have "card {p. 1 \<le> p \<and> p \<le> n \<and> Rnew' ! nat p}
          = Suc (card {p. 1 \<le> p \<and> p \<le> n \<and> Rnew ! nat p})"
        unfolding new by (rule marked_insert [OF r(1) kn nl r(3)])
      then show ?thesis using new assms(3) by simp
    qed
  qed
qed

lemma adj_loop_card:
  "adj_loop n k cosetrep adj comb A newpoint Acount len i Rnew cnt kpoint
     = Returns (Scanned Rnew' cnt' kpoint') \<Longrightarrow>
   known_kpoint k A kpoint \<Longrightarrow> forced_in_last n k A Rnew \<Longrightarrow>
   length Rnew = nat n + 1 \<Longrightarrow>
   cnt = int (card {p. 1 \<le> p \<and> p \<le> n \<and> Rnew ! nat p}) \<Longrightarrow>
   cnt' = int (card {p. 1 \<le> p \<and> p \<le> n \<and> Rnew' ! nat p})"
proof (induction n k cosetrep adj comb A newpoint Acount len i Rnew cnt kpoint
       rule: adj_loop.induct)
  case (1 n k cosetrep adj comb A newpoint Acount len i Rnew cnt kpoint)
  show ?case
  proof (cases "i \<le> len")
    case False
    with "1.prems"(1) have "Rnew' = Rnew" "cnt' = cnt" by (simp_all add: adj_loop_done)
    then show ?thesis using "1.prems"(5) by simp
  next
    case True
    from "1.prems"(1) obtain s where
      st0: "adj_step n k cosetrep adj comb A newpoint Acount i Rnew cnt kpoint = Returns s"
      and rec0: "(case s of
                 ReturnedTrue \<Rightarrow> Returns ReturnedTrue
               | Scanned Rnew1 Rnewcount1 kpoint1 \<Rightarrow>
                   adj_loop n k cosetrep adj comb A newpoint Acount len (i + 1)
                     Rnew1 Rnewcount1 kpoint1) = Returns (Scanned Rnew' cnt' kpoint')"
      unfolding adj_loop_unfold [OF True] obind_eq_Returns by blast
    from rec0 obtain R1 c1 k1 where s: "s = Scanned R1 c1 k1"
      by (cases s) simp_all
    note st = st0 [unfolded s]
    have rec: "adj_loop n k cosetrep adj comb A newpoint Acount len (i + 1) R1 c1 k1
           = Returns (Scanned Rnew' cnt' kpoint')"
      using rec0 unfolding s by simp
    note S = adj_step_Scanned [OF st "1.prems"(2,3)]
    have c1: "c1 = int (card {p. 1 \<le> p \<and> p \<le> n \<and> R1 ! nat p})"
      by (rule adj_step_card [OF st "1.prems"(4,5)])
    show ?thesis
      using "1.IH" [OF True st refl rec _ _ _ c1] S "1.prems"(4) by simp
  qed
qed

lemma pick_loop_total:
  "1 \<le> i \<Longrightarrow> nat n < length Rnew \<Longrightarrow> \<exists>p. i \<le> p \<and> p \<le> n \<and> Rnew ! nat p \<Longrightarrow>
   \<exists>r. pick_loop n Rnew i = Returns (Some r)"
proof (induction n Rnew i rule: pick_loop.induct)
  case (1 n Rnew i)
  from "1.prems"(3) obtain p where p: "i \<le> p" "p \<le> n" "Rnew ! nat p" by blast
  then have True: "i \<le> n" by simp
  have "nat i \<le> nat n" using True by (rule nat_mono)
  then have b: "rdb Rnew i = Returns (Rnew ! nat i)"
    using "1.prems"(1,2) by (simp add: rdb_def)
  show ?case
  proof (cases "Rnew ! nat i")
    case True
    then show ?thesis using \<open>i \<le> n\<close> b by (subst pick_loop.simps) simp
  next
    case False
    then have "p \<noteq> i" using p by auto
    then have "i + 1 \<le> p" using p(1) by simp
    then have "\<exists>p. i + 1 \<le> p \<and> p \<le> n \<and> Rnew ! nat p" using p by blast
    then have "\<exists>r. pick_loop n Rnew (i + 1) = Returns (Some r)"
      using "1.IH" [OF True b False] "1.prems"(1,2) by simp
    then show ?thesis using True b False by (subst pick_loop.simps) simp
  qed
qed

lemma parts_loop_total:
  "(\<forall>v. 1 \<le> v \<and> v \<le> k - 1 \<longrightarrow>
      (\<exists>b A2. call (A[nat r := v]) = Returns (b, A2) \<and> (b \<longrightarrow> A2 = A[nat r := v]))) \<Longrightarrow>
   0 \<le> r \<Longrightarrow> nat r < length A \<Longrightarrow> A ! nat r = k \<Longrightarrow> 1 \<le> i \<Longrightarrow>
   \<exists>b A'. parts_loop call k r i A = Returns (b, A')"
proof (induction call k r i A rule: parts_loop.induct)
  case (1 call k r i A)
  show ?case
  proof (cases "i \<le> k - 1")
    case False
    then have "parts_loop call k r i A = Returns (True, A)"
      by (subst parts_loop.simps) simp
    then show ?thesis by blast
  next
    case True
    have w: "wr A r i = Returns (A[nat r := i])"
      using "1.prems"(2,3) by (simp add: wr_def)
    from "1.prems"(1,5) True obtain b A2 where
      c: "call (A[nat r := i]) = Returns (b, A2)" and res: "b \<longrightarrow> A2 = A[nat r := i]"
      by blast
    show ?thesis
    proof (cases b)
      case False
      then have "parts_loop call k r i A = Returns (False, A2)"
        using True w c by (subst parts_loop.simps) simp
      then show ?thesis by blast
    next
      case b: True
      then have A2: "A2 = A[nat r := i]" using res by simp
      have "A[nat r := k] = A"
        using "1.prems"(4) by (metis list_update_id)
      then have w3: "wr A2 r k = Returns A"
        using "1.prems"(2,3) unfolding A2 by (simp add: wr_def)
      have nb: "\<not> \<not> b" using b by simp
      have "\<exists>b A'. parts_loop call k r (i + 1) A = Returns (b, A')"
        using "1.IH" [OF True w c refl nb w3] "1.prems" by simp
      then show ?thesis using True w c b w3 by (subst parts_loop.simps) simp
    qed
  qed
qed

lemma last_part_shrinks:
  assumes "1 \<le> r" "r \<le> n" "nat n < length A" "A ! nat r = k" "v \<noteq> k"
  shows "card {p. 1 \<le> p \<and> p \<le> n \<and> A[nat r := v] ! nat p = k}
         < card {p. 1 \<le> p \<and> p \<le> n \<and> A ! nat p = k}"
proof -
  have fin: "finite {p. 1 \<le> p \<and> p \<le> n \<and> A ! nat p = k}"
    by (rule finite_subset [of _ "{1..n}"]) auto
  have "nat r \<le> nat n" using assms(2) by (rule nat_mono)
  then have rl: "nat r < length A" using assms(3) by simp
  have eq: "{p. 1 \<le> p \<and> p \<le> n \<and> A[nat r := v] ! nat p = k}
        = {p. 1 \<le> p \<and> p \<le> n \<and> A ! nat p = k} - {r}"
  proof (intro set_eqI iffI)
    fix p assume p: "p \<in> {p. 1 \<le> p \<and> p \<le> n \<and> A[nat r := v] ! nat p = k}"
    have "p \<noteq> r"
    proof
      assume "p = r"
      then have "A[nat r := v] ! nat p = v" using rl by simp
      with p assms(5) show False by simp
    qed
    moreover from this have "nat p \<noteq> nat r" using p assms(1) by auto
    ultimately show "p \<in> {p. 1 \<le> p \<and> p \<le> n \<and> A ! nat p = k} - {r}"
      using p by simp
  next
    fix p assume p: "p \<in> {p. 1 \<le> p \<and> p \<le> n \<and> A ! nat p = k} - {r}"
    then have "nat p \<noteq> nat r" using assms(1) by auto
    then show "p \<in> {p. 1 \<le> p \<and> p \<le> n \<and> A[nat r := v] ! nat p = k}"
      using p by simp
  qed
  have mem: "r \<in> {p. 1 \<le> p \<and> p \<le> n \<and> A ! nat p = k}"
    using assms by simp
  show ?thesis
    unfolding eq by (rule card_Diff1_less [OF fin mem])
qed

lemma TransversalProperty_total:
  "wf_tables n k cosetreps adj comb \<Longrightarrow>
   malloc (unsigned (n + 1) * sizeof_bool) \<Longrightarrow> malloc (unsigned (k + 1) * sizeof_bool) \<Longrightarrow>
   wf_partition n k A \<Longrightarrow> nat n < length R \<Longrightarrow> forced_in_last n k A R \<Longrightarrow>
   1 \<le> newpoint \<Longrightarrow> newpoint \<le> n \<Longrightarrow>
   card {p. 1 \<le> p \<and> p \<le> n \<and> A ! nat p = k} < depth \<Longrightarrow>
   \<exists>b A'. TransversalProperty depth malloc n k cosetreps adj comb A R newpoint = Returns (b, A')"
proof (induction depth arbitrary: A R newpoint)
  case 0
  then show ?case by simp
next
  case (Suc depth)
  note wf = Suc.prems(1) and wfA = Suc.prems(4)
  have k: "1 < k" "0 \<le> n" using wf by (simp_all add: wf_tables_def)
  have An: "nat n < length A" using wfA by (simp add: wf_partition_def)
  define R0 where "R0 = replicate (nat (n + 1)) False"
  have lR0: "length R0 = nat n + 1" unfolding R0_def using k by (simp add: nat_add_distrib)
  then have "nat n < length R0" by simp
  from count_loop_total [OF _ An Suc.prems(5) this, of 1 k 0 0]
  obtain Acount Rnew0 cnt0 where
    cl: "count_loop n k A R 1 0 R0 0 = Returns (Acount, Rnew0, cnt0)"
    by (metis prod_cases3 order_refl)
  note C = count_loop_Returns [OF cl order_refl]
  have l0: "length Rnew0 = nat n + 1" using C lR0 by simp
  have c0: "\<forall>p. 1 \<le> p \<and> p \<le> n \<longrightarrow> Rnew0 ! nat p = R ! nat p" using C by blast
  have f0: "forced_in_last n k A Rnew0"
    unfolding forced_in_last_def
  proof (intro allI impI)
    fix p assume p: "1 \<le> p \<and> p \<le> n \<and> Rnew0 ! nat p"
    then have "R ! nat p" using c0 by blast
    then show "A ! nat p = k"
      using p Suc.prems(6) by (simp add: forced_in_last_def)
  qed
  have "{p. 1 \<le> p \<and> p \<le> n \<and> Rnew0 ! nat p} = {p. 1 \<le> p \<and> p \<le> n \<and> R ! nat p}"
    using c0 by blast
  then have n0: "cnt0 = int (card {p. 1 \<le> p \<and> p \<le> n \<and> Rnew0 ! nat p})"
    using C by simp
  let ?cosetrep = "cosetreps ! nat newpoint"
  have "nat newpoint \<le> nat n" using Suc.prems(8) by (rule nat_mono)
  then have cr: "row cosetreps newpoint = Returns ?cosetrep"
    using wf Suc.prems(7) by (simp add: row_def wf_tables_def)
  have len: "rd adj 0 = Returns (Length adj)"
    using wf by (auto simp: rd_def Length_def wf_tables_def)
  have kr0: "kpoint_in_range n None" by (simp add: kpoint_in_range_def)
  have kk0: "known_kpoint k A None" by (simp add: known_kpoint_def)
  from adj_loop_total [OF wf wfA Suc.prems(7,8) order_refl refl refl kr0 l0, of Acount cnt0]
  obtain s where
    al: "adj_loop n k ?cosetrep adj comb A newpoint Acount (Length adj) 1 Rnew0 cnt0 None
         = Returns s"
    by blast
  note scan = TransversalProperty_scan [OF Suc.prems(2,3) cl [unfolded R0_def] cr len al,
      of depth]
  show ?case
  proof (cases s)
    case ReturnedTrue
    show ?thesis unfolding scan ReturnedTrue by auto
  next
    case (Scanned Rnew1 cnt1 kp)
    note S = adj_loop_Scanned [OF al [unfolded Scanned] kk0 f0]
    have l1: "length Rnew1 = nat n + 1" using S l0 by simp
    have f1: "forced_in_last n k A Rnew1" using S by simp
    have n1: "cnt1 = int (card {p. 1 \<le> p \<and> p \<le> n \<and> Rnew1 ! nat p})"
      by (rule adj_loop_card [OF al [unfolded Scanned] kk0 f0 l0 n0])
    show ?thesis
    proof (cases "cnt1 = 0")
      case True
      show ?thesis unfolding scan Scanned using True by auto
    next
      case False
      then have "card {p. 1 \<le> p \<and> p \<le> n \<and> Rnew1 ! nat p} \<noteq> 0"
        using n1 by simp
      then have "{p. 1 \<le> p \<and> p \<le> n \<and> Rnew1 ! nat p} \<noteq> {}"
        by (metis card.empty)
      then have ex: "\<exists>p. 1 \<le> p \<and> p \<le> n \<and> Rnew1 ! nat p" by blast
      have "nat n < length Rnew1" using l1 by simp
      from pick_loop_total [OF order_refl this ex] obtain r where
        pk: "pick_loop n Rnew1 1 = Returns (Some r)" by blast
      have r: "1 \<le> r" "r \<le> n" "nat r < length Rnew1" "Rnew1 ! nat r"
        using pick_loop_Some [OF pk] by simp_all
      have Ar: "A ! nat r = k" using f1 r by (simp add: forced_in_last_def)
      define Rnew2 where "Rnew2 = Rnew1[nat r := False]"
      have w: "wrb Rnew1 r False = Returns Rnew2"
        using r by (simp add: wrb_def Rnew2_def)
      have l2: "nat n < length Rnew2" using l1 by (simp add: Rnew2_def)
      have f2: "forced_in_last n k (A[nat r := v]) Rnew2" for v
        unfolding forced_in_last_def
      proof (intro allI impI)
        fix p assume p: "1 \<le> p \<and> p \<le> n \<and> Rnew2 ! nat p"
        have "nat p \<noteq> nat r"
        proof
          assume "nat p = nat r"
          then have "\<not> Rnew2 ! nat p" unfolding Rnew2_def using r by simp
          with p show False by simp
        qed
        then show "A[nat r := v] ! nat p = k"
          using p f1 unfolding Rnew2_def forced_in_last_def by simp
      qed
      have "nat r \<le> nat n" using r(2) by (rule nat_mono)
      then have rA: "nat r < length A" using An by simp
      have calls: "\<forall>v. 1 \<le> v \<and> v \<le> k - 1 \<longrightarrow>
          (\<exists>b A2. TransversalProperty depth malloc n k cosetreps adj comb (A[nat r := v]) Rnew2 r
                     = Returns (b, A2) \<and> (b \<longrightarrow> A2 = A[nat r := v]))"
      proof (intro allI impI)
        fix v assume v: "1 \<le> v \<and> v \<le> k - 1"
        have wfv: "wf_partition n k (A[nat r := v])"
          unfolding wf_partition_def
        proof (intro conjI allI impI)
          show "nat n < length (A[nat r := v])" using An by simp
        next
          fix p assume "1 \<le> p \<and> p \<le> n"
          then show "1 \<le> A[nat r := v] ! nat p" "A[nat r := v] ! nat p \<le> k"
            using wfA v rA by (auto simp: wf_partition_def nth_list_update)
        qed
        have "v \<noteq> k" using v by simp
        from last_part_shrinks [OF r(1,2) An Ar this] Suc.prems(9)
        have less: "card {p. 1 \<le> p \<and> p \<le> n \<and> A[nat r := v] ! nat p = k} < depth"
          by simp
        from Suc.IH [OF wf Suc.prems(2,3) wfv l2 f2 r(1,2) less] obtain b A2 where
          res: "TransversalProperty depth malloc n k cosetreps adj comb (A[nat r := v]) Rnew2 r
                = Returns (b, A2)"
          by blast
        have "A2 = A[nat r := v]" if b
          using TransversalProperty_restores [OF res [unfolded \<open>b\<close> [THEN eqTrueI]] f2] that
          by simp
        then show "\<exists>b A2. TransversalProperty depth malloc n k cosetreps adj comb
                     (A[nat r := v]) Rnew2 r = Returns (b, A2) \<and> (b \<longrightarrow> A2 = A[nat r := v])"
          using res by blast
      qed
      have r0: "0 \<le> r" using r(1) by simp
      from parts_loop_total [OF calls r0 rA Ar order_refl] obtain b A' where
        "parts_loop (\<lambda>A1. TransversalProperty depth malloc n k cosetreps adj comb A1 Rnew2 r)
           k r 1 A = Returns (b, A')"
        by blast
      then show ?thesis
        unfolding scan Scanned using False pk w by auto
    qed
  qed
qed

lemma int_range_4: "(1 \<le> p \<and> p \<le> (4::int)) = (p = 1 \<or> p = 2 \<or> p = 3 \<or> p = 4)"
  by arith

lemma int_range_2: "(1 \<le> p \<and> p \<le> (2::int)) = (p = 1 \<or> p = 2)"
  by arith

lemma int_range_1: "(1 \<le> p \<and> p \<le> (1::int)) = (p = 1)"
  by arith

text \<open>
  C6. On tables in range, a partition with labels in \<open>1..k\<close>, a set \<^verbatim>\<open>R\<close> inside the
  last part and a \<^verbatim>\<open>newpoint\<close> outside it, \<^verbatim>\<open>TransversalProperty\<close> returns, and a
  nesting of \<open>n\<close> calls is enough: every nested call has one point less in the last
  part.
\<close>

theorem TransversalProperty_terminates:
  assumes "wf_tables n k cosetreps adj comb"
    and "malloc (unsigned (n + 1) * sizeof_bool)" and "malloc (unsigned (k + 1) * sizeof_bool)"
    and "wf_partition n k A" and "nat n < length R" and "forced_in_last n k A R"
    and "1 \<le> newpoint" and "newpoint \<le> n" and "A ! nat newpoint < k"
    and "nat n \<le> depth"
  shows "\<exists>b A'. TransversalProperty depth malloc n k cosetreps adj comb A R newpoint
                  = Returns (b, A')"
proof -
  have "{p. 1 \<le> p \<and> p \<le> n \<and> A ! nat p = k} \<subseteq> {1..n} - {newpoint}"
    using assms(9) by auto
  then have "card {p. 1 \<le> p \<and> p \<le> n \<and> A ! nat p = k} \<le> card ({1..n} - {newpoint})"
    by (intro card_mono) simp_all
  also have "\<dots> < card {1..n}"
    using assms(7,8) by (intro card_Diff1_less) simp_all
  also have "\<dots> = nat n" by simp
  finally have "card {p. 1 \<le> p \<and> p \<le> n \<and> A ! nat p = k} < depth"
    using assms(10) by simp
  then show ?thesis
    by (rule TransversalProperty_total [OF assms(1-8)])
qed

theorem TransversalProperty_terminates_witness:
  "\<exists>b A'. TransversalProperty 4 (\<lambda>s. True) 4 2
     [[], [4, 1, 2, 3, 4], [4, 2, 3, 4, 1], [4, 3, 4, 1, 2], [4, 4, 1, 2, 3]]
     [2, 2, 4] [[], [1, 1], [1, 2], [1, 3], [1, 4]]
     [4, 1, 2, 2, 2] [False, False, False, False, False] 1
   = Returns (b, A')"
proof -
  let ?m = "\<lambda>s::nat. True"
  let ?R = "[False, False, False, False, False]"
  have h1: "wf_tables 4 2 [[], [4, 1, 2, 3, 4], [4, 2, 3, 4, 1], [4, 3, 4, 1, 2], [4, 4, 1, 2, 3]]
     [2, 2, 4] [[], [1, 1], [1, 2], [1, 3], [1, 4]]"
    unfolding wf_tables_def Length_def
    by (simp add: int_range_4 int_range_2 int_range_1 eval_nat_numeral) 
  have h2: "?m (unsigned (4 + 1) * sizeof_bool)" and h3: "?m (unsigned (2 + 1) * sizeof_bool)"
    by simp_all
  have h4: "wf_partition 4 2 [4, 1, 2, 2, 2]"
    unfolding wf_partition_def by (auto simp: int_range_4 eval_nat_numeral)
  have h5: "nat 4 < length ?R" by simp
  have h6: "forced_in_last 4 2 [4, 1, 2, 2, 2] ?R"
    unfolding forced_in_last_def
  proof (intro allI impI)
    fix p :: int assume p: "1 \<le> p \<and> p \<le> 4 \<and> ?R ! nat p"
    then have "p = 1 \<or> p = 2 \<or> p = 3 \<or> p = 4" by arith
    then show "[4, 1, 2, 2, 2] ! nat p = (2::int)" using p by (auto simp: eval_nat_numeral)
  qed
  have h7: "(1::int) \<le> 1" and h8: "(1::int) \<le> 4" by simp_all
  have h9: "[4, 1, 2, 2, 2] ! nat 1 < (2::int)" by simp
  have h10: "nat 4 \<le> (4::nat)" by simp
  show ?thesis
    by (rule TransversalProperty_terminates [where malloc = ?m, OF h1 h2 h3 h4 h5 h6 h7 h8 h9 h10])
qed


section \<open>Correctness of Combinations\<close>

lemma first_loop_cells:
  "1 \<le> j \<Longrightarrow> nat k < length c \<Longrightarrow>
   length (first_loop k j c) = length c
   \<and> (\<forall>q. first_loop k j c ! q = (if nat j \<le> q \<and> q \<le> nat k then int q else c ! q))"
proof (induction k j c rule: first_loop.induct)
  case (1 k j c)
  show ?case
  proof (cases "j \<le> k")
    case False
    then have "first_loop k j c = c" by (subst first_loop.simps) simp
    moreover have "\<not> (nat j \<le> q \<and> q \<le> nat k)" for q using False "1.prems"(1) by auto
    ultimately show ?thesis by auto
  next
    case True
    have eq: "first_loop k j c = first_loop k (j + 1) (c[nat j := j])"
      using True by (subst first_loop.simps) simp
    have IH: "length (first_loop k (j + 1) (c[nat j := j])) = length c
      \<and> (\<forall>q. first_loop k (j + 1) (c[nat j := j]) ! q
            = (if nat (j + 1) \<le> q \<and> q \<le> nat k then int q else c[nat j := j] ! q))"
      using "1.IH" [OF True] "1.prems" by simp
    have jl: "nat j < length c" using True "1.prems" by simp
    have j1: "nat (j + 1) = Suc (nat j)" using "1.prems"(1) by (simp add: nat_add_distrib)
    have jk: "nat j \<le> nat k" using True by (rule nat_mono)
    have ij: "int (nat j) = j" using "1.prems"(1) by simp
    note IH' = IH [unfolded j1]
    show ?thesis
      unfolding eq
    proof (intro conjI allI)
      show "length (first_loop k (j + 1) (c[nat j := j])) = length c" using IH by simp
    next
      fix q
      show "first_loop k (j + 1) (c[nat j := j]) ! q
            = (if nat j \<le> q \<and> q \<le> nat k then int q else c ! q)"
      proof (cases "q = nat j")
        case True
        then show ?thesis using IH' jl jk ij by simp
      next
        case False
        then show ?thesis using IH' by auto
      qed
    qed
  qed
qed

lemma copy_loop_cells:
  "1 \<le> jj \<Longrightarrow> jj \<le> j \<Longrightarrow> nat j \<le> length c \<Longrightarrow>
   fst (copy_loop prev j jj c) = j
   \<and> length (snd (copy_loop prev j jj c)) = length c
   \<and> (\<forall>q. snd (copy_loop prev j jj c) ! q
          = (if nat jj \<le> q \<and> q < nat j then prev ! q else c ! q))"
proof (induction prev j jj c rule: copy_loop.induct)
  case (1 prev j jj c)
  show ?case
  proof (cases "jj < j")
    case False
    then have "copy_loop prev j jj c = (jj, c)" by (subst copy_loop.simps) simp
    moreover have "jj = j" using False "1.prems" by simp
    ultimately show ?thesis by simp
  next
    case True
    have eq: "copy_loop prev j jj c = copy_loop prev j (jj + 1) (c[nat jj := prev ! nat jj])"
      using True by (subst copy_loop.simps) simp
    have IH: "fst (copy_loop prev j (jj + 1) (c[nat jj := prev ! nat jj])) = j
      \<and> length (snd (copy_loop prev j (jj + 1) (c[nat jj := prev ! nat jj]))) = length c
      \<and> (\<forall>q. snd (copy_loop prev j (jj + 1) (c[nat jj := prev ! nat jj])) ! q
            = (if nat (jj + 1) \<le> q \<and> q < nat j then prev ! q
               else c[nat jj := prev ! nat jj] ! q))"
      using "1.IH" [OF True] "1.prems" True by simp
    have jl: "nat jj < length c" using True "1.prems" by simp
    have j1: "nat (jj + 1) = Suc (nat jj)" using "1.prems"(1) by (simp add: nat_add_distrib)
    have jk: "nat jj < nat j" using True "1.prems"(1) by simp
    note IH' = IH [unfolded j1]
    show ?thesis
      unfolding eq
    proof (intro conjI allI)
      fix q
      show "snd (copy_loop prev j (jj + 1) (c[nat jj := prev ! nat jj])) ! q
            = (if nat jj \<le> q \<and> q < nat j then prev ! q else c ! q)"
      proof (cases "q = nat jj")
        case True
        then show ?thesis using IH' jl jk by simp
      next
        case False
        then show ?thesis using IH' by auto
      qed
    qed (use IH in simp_all)
  qed
qed

lemma fill_loop_cells:
  "1 \<le> jj \<Longrightarrow> nat k < length c \<Longrightarrow>
   length (fill_loop k jj c) = length c
   \<and> (\<forall>q. fill_loop k jj c ! q
          = (if nat jj \<le> q \<and> q \<le> nat k then c ! (nat jj - 1) + int (q + 1 - nat jj) else c ! q))"
proof (induction k jj c rule: fill_loop.induct)
  case (1 k jj c)
  show ?case
  proof (cases "jj \<le> k")
    case False
    then have "fill_loop k jj c = c" by (subst fill_loop.simps) simp
    moreover have "\<not> (nat jj \<le> q \<and> q \<le> nat k)" for q using False "1.prems"(1) by auto
    ultimately show ?thesis by auto
  next
    case True
    let ?c1 = "c[nat jj := c ! nat (jj - 1) + 1]"
    have eq: "fill_loop k jj c = fill_loop k (jj + 1) ?c1"
      using True by (subst fill_loop.simps) simp
    have IH: "length (fill_loop k (jj + 1) ?c1) = length c
      \<and> (\<forall>q. fill_loop k (jj + 1) ?c1 ! q
            = (if nat (jj + 1) \<le> q \<and> q \<le> nat k
               then ?c1 ! (nat (jj + 1) - 1) + int (q + 1 - nat (jj + 1)) else ?c1 ! q))"
      using "1.IH" [OF True] "1.prems" by simp
    have jl: "nat jj < length c" using True "1.prems" by simp
    have j1: "nat (jj + 1) = Suc (nat jj)" "nat (jj - 1) = nat jj - 1"
      using "1.prems"(1) by (simp_all add: nat_add_distrib nat_diff_distrib)
    have jk: "nat jj \<le> nat k" using True by (rule nat_mono)
    have jpos: "0 < nat jj" using "1.prems"(1) by simp
    have IH': "\<forall>q. fill_loop k (jj + 1) ?c1 ! q
            = (if Suc (nat jj) \<le> q \<and> q \<le> nat k
               then ?c1 ! nat jj + int (q - nat jj) else ?c1 ! q)"
      using IH unfolding j1 by simp
    have c1j: "?c1 ! nat jj = c ! (nat jj - 1) + 1" using jl j1 by simp
    show ?thesis
      unfolding eq
    proof (intro conjI allI)
      show "length (fill_loop k (jj + 1) ?c1) = length c" using IH by simp
    next
      fix q
      have X: "fill_loop k (jj + 1) ?c1 ! q
            = (if Suc (nat jj) \<le> q \<and> q \<le> nat k
               then ?c1 ! nat jj + int (q - nat jj) else ?c1 ! q)"
        using IH' by blast
      show "fill_loop k (jj + 1) ?c1 ! q
            = (if nat jj \<le> q \<and> q \<le> nat k then c ! (nat jj - 1) + int (q + 1 - nat jj)
               else c ! q)"
      proof (cases "q = nat jj")
        case True
        then have "\<not> (Suc (nat jj) \<le> q \<and> q \<le> nat k)" by simp
        then have "fill_loop k (jj + 1) ?c1 ! q = ?c1 ! q"
          by (simp only: X if_False)
        then show ?thesis unfolding True c1j using jk by simp
      next
        case False
        show ?thesis
        proof (cases "Suc (nat jj) \<le> q \<and> q \<le> nat k")
          case True
          then have "fill_loop k (jj + 1) ?c1 ! q = ?c1 ! nat jj + int (q - nat jj)"
            by (simp only: X if_True simp_thms)
          also have "\<dots> = c ! (nat jj - 1) + 1 + int (q - nat jj)"
            unfolding c1j ..
          also have "\<dots> = c ! (nat jj - 1) + int (q + 1 - nat jj)"
            using True by (simp add: Suc_diff_le)
          finally show ?thesis using True by simp
        next
          case F2: False
          then have "fill_loop k (jj + 1) ?c1 ! q = ?c1 ! q"
            by (simp only: X if_False)
          moreover have "?c1 ! q = c ! q" using False by simp
          moreover have "\<not> (nat jj \<le> q \<and> q \<le> nat k)" using False F2 by auto
          ultimately show ?thesis by (simp only: if_False)
        qed
      qed
    qed
  qed
qed

text \<open>
  \<open>next_comb n m c\<close> is the successor of the increasing sequence \<open>c\<close> when \<open>m\<close> more
  positions, all at their maximum, follow it: the rightmost position below its maximum
  is raised by one and the positions after it are set to the consecutive integers.
\<close>

fun next_comb :: "int \<Rightarrow> nat \<Rightarrow> int list \<Rightarrow> int list option" where
  "next_comb n m [] = None"
| "next_comb n m (a # c) =
     (case next_comb n m c of
        Some d \<Rightarrow> Some (a # d)
      | None \<Rightarrow> if a < n - int (length c + m) then Some [a + 1..a + 1 + int (length c + m)]
                else None)"

lemma next_comb_snoc:
  "next_comb n m (xs @ [a]) =
     (if a < n - int m then Some (xs @ [a + 1..a + 1 + int m]) else next_comb n (Suc m) xs)"
  by (induction xs) (auto split: option.splits)

lemma successor_row:
  assumes "length prev = nat k + 1" and "length c = nat k + 1" and "c ! 0 = k"
    and "1 \<le> j" and "j \<le> k"
  shows "fill_loop k (fst (copy_loop prev j 1 c) + 1)
           ((snd (copy_loop prev j 1 c))[nat j := prev ! nat j + 1])
         = k # (take (nat j - 1) (tl prev) @ [prev ! nat j + 1..prev ! nat j + 1 + int (nat (k - j))])"
    (is "?R = k # (?pre @ ?suf)")
proof -
  let ?a = "prev ! nat j"
  let ?c1 = "snd (copy_loop prev j 1 c)"
  let ?c2 = "?c1[nat j := ?a + 1]"
  have jn: "0 < nat j" "nat j \<le> nat k" "nat (j + 1) = Suc (nat j)"
    using assms(4,5) by (simp_all add: nat_add_distrib nat_mono)
  have jl: "nat j \<le> length c" using jn assms(2) by simp
  note C = copy_loop_cells [OF order_refl assms(4) jl, of prev]
  have fstc: "fst (copy_loop prev j 1 c) = j" using C by simp
  have l1: "length ?c1 = nat k + 1" using C assms(2) by simp
  have c1: "?c1 ! q = (if 1 \<le> q \<and> q < nat j then prev ! q else c ! q)" for q
    using C by simp
  have l2: "length ?c2 = nat k + 1" using l1 by simp
  have kl: "nat k < length ?c2" using l2 by simp
  have j1: "(1::int) \<le> j + 1" using assms(4) by simp
  note F = fill_loop_cells [OF j1 kl]
  have lR: "length ?R = nat k + 1" unfolding fstc using F l2 by simp
  have R: "?R ! q = (if Suc (nat j) \<le> q \<and> q \<le> nat k then ?c2 ! nat j + int (q - nat j)
                     else ?c2 ! q)" for q
    unfolding fstc using F jn by simp
  have lpre: "length ?pre = nat j - 1" using assms(1) jn by simp
  have lsuf: "length ?suf = nat k - nat j + 1"
    using assms(4,5) by (simp add: nat_diff_distrib nat_add_distrib)
  have c2j: "?c2 ! nat j = ?a + 1" using l1 jn by simp
  show ?thesis
  proof (rule nth_equalityI)
    show "length ?R = length (k # (?pre @ ?suf))"
      unfolding lR length_Cons length_append lpre lsuf using jn by arith
  next
    fix q assume "q < length ?R"
    then have q: "q \<le> nat k" using lR by simp
    consider "q = 0" | "1 \<le> q" "q < nat j" | "q = nat j" | "nat j < q"
      by linarith
    then show "?R ! q = (k # (?pre @ ?suf)) ! q"
    proof cases
      case 1
      then have "?R ! q = ?c2 ! 0" using R [of 0] by simp
      also have "\<dots> = ?c1 ! 0" using jn by simp
      also have "\<dots> = k" using c1 [of 0] assms(3) by simp
      finally show ?thesis using 1 by simp
    next
      case 2
      then have "?R ! q = ?c2 ! q" using R [of q] by simp
      also have "\<dots> = ?c1 ! q" using 2 by simp
      also have "\<dots> = prev ! q" using c1 [of q] 2 by simp
      finally have a: "?R ! q = prev ! q" .
      have q1: "q - 1 < nat j - 1" "q \<noteq> 0" using 2 by arith+
      have "(k # (?pre @ ?suf)) ! q = ?pre ! (q - 1)"
        using q1 by (simp only: nth_Cons' nth_append lpre if_True if_False)
      also have "\<dots> = tl prev ! (q - 1)" using q1 by simp
      also have "\<dots> = prev ! q" using 2 assms(1) q by (simp add: nth_tl)
      finally show ?thesis using a by simp
    next
      case 3
      then have "?R ! q = ?c2 ! nat j" using R [of q] by simp
      then have a: "?R ! q = ?a + 1" using c2j by simp
      have q1: "\<not> q - 1 < nat j - 1" "q \<noteq> 0" "q - 1 - (nat j - 1) = 0" using 3 jn by arith+
      have "(k # (?pre @ ?suf)) ! q = ?suf ! 0"
        using q1 by (simp only: nth_Cons' nth_append lpre if_True if_False)
      also have "\<dots> = ?a + 1" by (subst nth_upto) simp_all
      finally show ?thesis using a by simp
    next
      case 4
      then have "?R ! q = ?c2 ! nat j + int (q - nat j)" using R [of q] q by simp
      then have a: "?R ! q = ?a + 1 + int (q - nat j)" using c2j by simp
      have q1: "\<not> q - 1 < nat j - 1" "q \<noteq> 0" "q - 1 - (nat j - 1) = q - nat j"
        using 4 jn by arith+
      have "(k # (?pre @ ?suf)) ! q = ?suf ! (q - nat j)"
        using q1 by (simp only: nth_Cons' nth_append lpre if_True if_False)
      also have "\<dots> = ?a + 1 + int (q - nat j)"
        using 4 q assms(4,5) by (subst nth_upto) (simp_all add: nat_diff_distrib)
      finally show ?thesis using a by simp
    qed
  qed
qed

lemma successor_loop_next:
  "length prev = nat k + 1 \<Longrightarrow> length c = nat k + 1 \<Longrightarrow> c ! 0 = k \<Longrightarrow> 0 \<le> j \<Longrightarrow> j \<le> k \<Longrightarrow>
   successor_loop n k prev j c =
     (case next_comb n (nat (k - j)) (take (nat j) (tl prev)) of
        Some d \<Rightarrow> k # d | None \<Rightarrow> c)"
proof (induction n k prev j c rule: successor_loop.induct)
  case (1 n k prev j c)
  show ?case
  proof (cases "j \<ge> 1")
    case False
    then have "j = 0" using "1.prems"(4) by simp
    then show ?thesis by (subst successor_loop.simps) simp
  next
    case True
    let ?a = "prev ! nat j"
    let ?m = "nat (k - j)"
    have jn: "0 < nat j" "nat j \<le> nat k" using True "1.prems"(5) by (simp_all add: nat_mono)
    have "nat j - 1 < length (tl prev)" using jn "1.prems"(1) by simp
    then have "take (Suc (nat j - 1)) (tl prev) = take (nat j - 1) (tl prev) @ [tl prev ! (nat j - 1)]"
      by (rule take_Suc_conv_app_nth)
    moreover have "tl prev ! (nat j - 1) = ?a"
      using jn "1.prems"(1) by (simp add: nth_tl)
    ultimately have tk: "take (nat j) (tl prev) = take (nat j - 1) (tl prev) @ [?a]"
      using jn by simp
    have m: "int ?m = k - j" using "1.prems"(5) by simp
    have nc: "next_comb n ?m (take (nat j) (tl prev)) =
        (if ?a < n - (k - j) then Some (take (nat j - 1) (tl prev) @ [?a + 1..?a + 1 + int ?m])
         else next_comb n (Suc ?m) (take (nat j - 1) (tl prev)))"
      unfolding tk next_comb_snoc m ..
    show ?thesis
    proof (cases "?a < n - (k - j)")
      case good: True
      have "successor_loop n k prev j c =
          fill_loop k (fst (copy_loop prev j 1 c) + 1)
            ((snd (copy_loop prev j 1 c))[nat j := ?a + 1])"
        using True good by (subst successor_loop.simps) (simp add: case_prod_beta)
      also have "\<dots> = k # (take (nat j - 1) (tl prev) @ [?a + 1..?a + 1 + int ?m])"
        by (rule successor_row [OF "1.prems"(1,2,3) True "1.prems"(5)])
      finally show ?thesis unfolding nc using good by simp
    next
      case bad: False
      have "successor_loop n k prev j c = successor_loop n k prev (j - 1) c"
        using True bad by (subst successor_loop.simps) simp
      also have "\<dots> = (case next_comb n (nat (k - (j - 1))) (take (nat (j - 1)) (tl prev)) of
            Some d \<Rightarrow> k # d | None \<Rightarrow> c)"
        using "1.IH" [OF True bad "1.prems"(1,2,3)] True "1.prems"(5) by simp
      also have "nat (k - (j - 1)) = Suc ?m" using "1.prems"(5) by simp
      also have "nat (j - 1) = nat j - 1" by simp
      finally show ?thesis unfolding nc using bad by simp
    qed
  qed
qed

text \<open>
  The reference enumeration: \<open>combs lo n k\<close> lists the increasing sequences of length
  \<open>k\<close> over \<open>{lo..n}\<close>, those that start with \<open>lo\<close> first. \<open>chain\<close> says that each
  sequence of a list is followed by its successor.
\<close>

function combs :: "int \<Rightarrow> int \<Rightarrow> nat \<Rightarrow> int list list" where
  "combs lo n 0 = [[]]"
| "combs lo n (Suc k) =
     (if n < lo then []
      else map ((#) lo) (combs (lo + 1) n k) @ combs (lo + 1) n (Suc k))"
  by pat_completeness auto
termination
  by (relation "measure (\<lambda>(lo, n, k). nat (n + 1 - lo))") auto

lemma combs_Suc:
  "\<not> n < lo \<Longrightarrow>
   combs lo n (Suc k) = map ((#) lo) (combs (lo + 1) n k) @ combs (lo + 1) n (Suc k)"
  by simp

lemma combs_none: "n < lo \<Longrightarrow> combs lo n (Suc k) = []"
  by simp

declare combs.simps(2) [simp del]

fun chain :: "int \<Rightarrow> int list list \<Rightarrow> bool" where
  "chain n [] = True"
| "chain n [x] = True"
| "chain n (x # y # zs) = (next_comb n 0 x = Some y \<and> chain n (y # zs))"

lemma combs_member:
  "c \<in> set (combs lo n k) \<Longrightarrow> length c = k \<and> sorted_wrt (<) c \<and> set c \<subseteq> {lo..n}"
proof (induction lo n k arbitrary: c rule: combs.induct)
  case (1 lo n)
  then show ?case by simp
next
  case (2 lo n k)
  show ?case
  proof (cases "n < lo")
    case True
    with "2.prems" show ?thesis by (simp add: combs_none)
  next
    case False
    from "2.prems" consider d where "c = lo # d" "d \<in> set (combs (lo + 1) n k)"
      | "c \<in> set (combs (lo + 1) n (Suc k))"
      unfolding combs_Suc [OF False] by auto
    then show ?thesis
    proof cases
      case 1
      from "2.IH"(1) [OF False 1(2)] have "length d = k" "sorted_wrt (<) d" "set d \<subseteq> {lo + 1..n}"
        by simp_all
      then show ?thesis using 1(1) False by auto
    next
      case 2
      from "2.IH"(2) [OF False 2] have "length c = Suc k" "sorted_wrt (<) c" "set c \<subseteq> {lo + 1..n}"
        by simp_all
      then show ?thesis by auto
    qed
  qed
qed

lemma combs_complete:
  "length c = k \<Longrightarrow> sorted_wrt (<) c \<Longrightarrow> set c \<subseteq> {lo..n} \<Longrightarrow> c \<in> set (combs lo n k)"
proof (induction lo n k arbitrary: c rule: combs.induct)
  case (1 lo n)
  then show ?case by simp
next
  case (2 lo n k)
  from "2.prems"(1) obtain a d where c: "c = a # d" "length d = k" by (cases c) auto
  have a: "lo \<le> a" "a \<le> n" using "2.prems"(3) c by simp_all
  then have F: "\<not> n < lo" by simp
  have d: "sorted_wrt (<) d" "\<forall>x\<in>set d. a < x" "set d \<subseteq> {lo..n}"
    using "2.prems"(2,3) c by simp_all
  show ?case
  proof (cases "a = lo")
    case True
    have "set d \<subseteq> {lo + 1..n}"
    proof
      fix x assume "x \<in> set d"
      then have "a < x" "x \<in> {lo..n}" using d by auto
      then show "x \<in> {lo + 1..n}" using True by simp
    qed
    then have "d \<in> set (combs (lo + 1) n k)"
      using "2.IH"(1) [OF F c(2) d(1)] by simp
    then show ?thesis using c True by (simp add: combs_Suc [OF F])
  next
    case False
    have "set c \<subseteq> {lo + 1..n}"
    proof
      fix x assume "x \<in> set c"
      then have "x = a \<or> (a < x \<and> x \<in> {lo..n})" using d c by auto
      then show "x \<in> {lo + 1..n}" using a False by auto
    qed
    then have "c \<in> set (combs (lo + 1) n (Suc k))"
      using "2.IH"(2) [OF F "2.prems"(1,2)] by simp
    then show ?thesis by (simp add: combs_Suc [OF F])
  qed
qed

lemma combs_lex_sorted: "sorted_wrt (<) (combs lo n k)"
proof (induction lo n k rule: combs.induct)
  case (1 lo n)
  then show ?case by simp
next
  case (2 lo n k)
  show ?case
  proof (cases "n < lo")
    case True
    then show ?thesis by (simp add: combs_none)
  next
    case False
    have s1: "sorted_wrt (<) (map ((#) lo) (combs (lo + 1) n k))"
      using "2.IH"(1) [OF False] by (simp add: sorted_wrt_map)
    have s2: "sorted_wrt (<) (combs (lo + 1) n (Suc k))"
      using "2.IH"(2) [OF False] .
    have cross: "lo # d < y" if "y \<in> set (combs (lo + 1) n (Suc k))" for d y
    proof -
      from combs_member [OF that] obtain b e where "y = b # e" "lo + 1 \<le> b"
        by (cases y) auto
      then show ?thesis by simp
    qed
    show ?thesis
      unfolding combs_Suc [OF False] sorted_wrt_append
      using s1 s2 cross by auto
  qed
qed

lemma combs_length: "length (combs lo n k) = nat (n + 1 - lo) choose k"
proof (induction lo n k rule: combs.induct)
  case (1 lo n)
  then show ?case by simp
next
  case (2 lo n k)
  show ?case
  proof (cases "n < lo")
    case True
    then have "nat (n + 1 - lo) = 0" by simp
    then show ?thesis using True by (simp add: combs_none)
  next
    case False
    then have e: "nat (n + 1 - lo) = Suc (nat (n + 1 - (lo + 1)))" by simp
    show ?thesis
      unfolding combs_Suc [OF False] e
      using "2.IH" [OF False] by simp
  qed
qed

lemma chain_map: "chain n L \<Longrightarrow> chain n (map ((#) a) L)"
  by (induction n L rule: chain.induct) simp_all

lemma chain_append:
  "chain n xs \<Longrightarrow> chain n ys \<Longrightarrow>
   (xs \<noteq> [] \<Longrightarrow> ys \<noteq> [] \<Longrightarrow> next_comb n 0 (last xs) = Some (hd ys)) \<Longrightarrow>
   chain n (xs @ ys)"
proof (induction n xs rule: chain.induct)
  case (1 n)
  then show ?case by simp
next
  case (2 n x)
  then show ?case by (cases ys) simp_all
next
  case (3 n x y zs)
  then show ?case by simp
qed

lemma chain_nth:
  "chain n L \<Longrightarrow> Suc t < length L \<Longrightarrow> next_comb n 0 (L ! t) = Some (L ! Suc t)"
proof (induction n L arbitrary: t rule: chain.induct)
  case (3 n x y zs)
  then show ?case by (cases t) simp_all
qed simp_all

lemma next_comb_max: "next_comb n m [n - int m - int k + 1..n - int m] = None"
proof (induction k)
  case 0
  then show ?case by simp
next
  case (Suc k)
  have e: "n - int m - int (Suc k) + 1 = n - int m - int k" by simp
  have u: "[n - int m - int k..n - int m]
        = (n - int m - int k) # [n - int m - int k + 1..n - int m]"
    by (rule upto_rec1) simp
  have l: "length [n - int m - int k + 1..n - int m] = k" by simp
  show ?case
    unfolding e u using Suc l by simp
qed

lemma combs_empty:
  assumes "n + 1 - lo < int (Suc k)"
  shows "combs lo n (Suc k) = []"
proof -
  have "nat (n + 1 - lo) < Suc k" using assms by (cases "0 \<le> n + 1 - lo") simp_all
  then have "length (combs lo n (Suc k)) = 0"
    unfolding combs_length by (rule binomial_eq_0)
  then show ?thesis by simp
qed

lemma combs_hd_last:
  "int k \<le> n + 1 - lo \<Longrightarrow>
   combs lo n k \<noteq> [] \<and> hd (combs lo n k) = [lo..lo + int k - 1]
   \<and> last (combs lo n k) = [n - int k + 1..n]"
proof (induction lo n k rule: combs.induct)
  case (1 lo n)
  then show ?case by simp
next
  case (2 lo n k)
  then have F: "\<not> n < lo" by simp
  let ?L1 = "map ((#) lo) (combs (lo + 1) n k)"
  let ?L2 = "combs (lo + 1) n (Suc k)"
  have k1: "int k \<le> n + 1 - (lo + 1)" using "2.prems" by simp
  note I1 = "2.IH"(1) [OF F k1]
  have ne: "?L1 \<noteq> []" using I1 by simp
  have h1: "hd ?L1 = lo # [lo + 1..lo + 1 + int k - 1]" using I1 by (simp add: hd_map)
  have l1: "last ?L1 = lo # [n - int k + 1..n]" using I1 by (simp add: last_map)
  have up: "[lo..lo + int (Suc k) - 1] = lo # [lo + 1..lo + 1 + int k - 1]"
    by (subst upto_rec1) simp_all
  have hd: "hd (?L1 @ ?L2) = [lo..lo + int (Suc k) - 1]"
    using ne h1 up by simp
  have last: "last (?L1 @ ?L2) = [n - int (Suc k) + 1..n]"
  proof (cases "int (Suc k) \<le> n + 1 - (lo + 1)")
    case True
    from "2.IH"(2) [OF F True] show ?thesis by simp
  next
    case False
    then have e: "?L2 = []" by (intro combs_empty) simp
    have "lo = n - int k" using False "2.prems" by simp
    then have "[n - int (Suc k) + 1..n] = lo # [n - int k + 1..n]"
      by (subst upto_rec1) simp_all
    then show ?thesis using e l1 by simp
  qed
  show ?case
    unfolding combs_Suc [OF F] using ne hd last by simp
qed

lemma combs_chain: "chain n (combs lo n k)"
proof (induction lo n k rule: combs.induct)
  case (1 lo n)
  then show ?case by simp
next
  case (2 lo n k)
  show ?case
  proof (cases "n < lo")
    case True
    then show ?thesis by (simp add: combs_none)
  next
    case False
    let ?L1 = "map ((#) lo) (combs (lo + 1) n k)"
    let ?L2 = "combs (lo + 1) n (Suc k)"
    have c1: "chain n ?L1" using "2.IH"(1) [OF False] by (rule chain_map)
    have c2: "chain n ?L2" using "2.IH"(2) [OF False] .
    have junction: "next_comb n 0 (last ?L1) = Some (hd ?L2)" if "?L2 \<noteq> []"
    proof -
      have k2: "int (Suc k) \<le> n + 1 - (lo + 1)"
      proof (rule ccontr)
        assume "\<not> int (Suc k) \<le> n + 1 - (lo + 1)"
        then have "?L2 = []" by (intro combs_empty) simp
        with that show False by simp
      qed
      then have k1: "int k \<le> n + 1 - (lo + 1)" by simp
      have l1: "last ?L1 = lo # [n - int k + 1..n]"
        using combs_hd_last [OF k1] by (simp add: last_map)
      have a: "lo + 1 + int (Suc k) - 1 = lo + 1 + int k" by simp
      have h2: "hd ?L2 = [lo + 1..lo + 1 + int k]"
        using combs_hd_last [OF k2] unfolding a by blast
      have mx: "next_comb n 0 [n - int k + 1..n] = None"
        using next_comb_max [of n 0 k] by simp
      have len: "length [n - int k + 1..n] = k" by simp
      have "lo < n - int k" using k2 by simp
      then show ?thesis
        unfolding l1 h2 using mx len by simp
    qed
    show ?thesis
      unfolding combs_Suc [OF False]
      using c1 c2 junction by (intro chain_append) simp_all
  qed
qed

lemma IntList_row:
  "0 \<le> k \<Longrightarrow> malloc (unsigned (k + 1) * sizeof_int) \<Longrightarrow>
   IntList malloc k = Returns (k # replicate (nat k) 0)"
  by (simp add: IntList_def SetLength_def)

lemma first_row:
  assumes "0 \<le> k"
  shows "first_loop k 1 (k # replicate (nat k) 0) = k # [1..k]"
proof (rule nth_equalityI)
  let ?c = "k # replicate (nat k) 0"
  have kl: "nat k < length ?c" by simp
  note F = first_loop_cells [OF order_refl kl]
  show "length (first_loop k 1 ?c) = length (k # [1..k])"
    using F assms by simp
  fix q assume "q < length (first_loop k 1 ?c)"
  then have q: "q \<le> nat k" using F by simp
  have Fq: "first_loop k 1 ?c ! q = (if 1 \<le> q \<and> q \<le> nat k then int q else ?c ! q)"
    using F by simp
  show "first_loop k 1 ?c ! q = (k # [1..k]) ! q"
  proof (cases q)
    case 0
    then show ?thesis using Fq by simp
  next
    case (Suc r)
    then have "[1..k] ! r = 1 + int r" using q by (subst nth_upto) simp_all
    then show ?thesis using Fq Suc q by simp
  qed
qed

lemma comb_loop_rows:
  "kk = int k \<Longrightarrow> binom = int (length (combs 1 n k)) \<Longrightarrow>
   malloc (unsigned (kk + 1) * sizeof_int) \<Longrightarrow> 2 \<le> i \<Longrightarrow> i \<le> binom + 1 \<Longrightarrow>
   comb = [] # map ((#) kk) (take (nat i - 1) (combs 1 n k)) \<Longrightarrow>
   comb_loop malloc n kk binom i comb = Returns ([] # map ((#) kk) (combs 1 n k))"
proof (induction malloc n kk binom i comb rule: comb_loop.induct)
  case (1 malloc n kk binom i comb)
  let ?L = "combs 1 n k"
  show ?case
  proof (cases "i \<le> binom")
    case False
    then have "nat i - 1 = length ?L" using "1.prems"(2,5) by simp
    then have "comb = [] # map ((#) kk) ?L" using "1.prems"(6) by simp
    then show ?thesis using False by (subst comb_loop.simps) simp
  next
    case True
    let ?c0 = "kk # replicate (nat kk) 0"
    let ?t = "nat i - 2"
    have k0: "0 \<le> kk" using "1.prems"(1) by simp
    have c0: "IntList malloc kk = Returns ?c0"
      using k0 "1.prems"(3) by (rule IntList_row [of kk malloc])
    have t: "Suc ?t < length ?L" "Suc ?t = nat i - 1" "nat (i - 1) = Suc ?t"
      using True "1.prems"(2,4) by simp_all
    have cm: "comb = [] # map ((#) kk) (take (Suc ?t) ?L)"
      using "1.prems"(6) t(2) by simp
    have "comb ! Suc ?t = map ((#) kk) (take (Suc ?t) ?L) ! ?t"
      unfolding cm by simp
    also have "\<dots> = kk # take (Suc ?t) ?L ! ?t"
      using t(1) by (intro nth_map) simp
    also have "take (Suc ?t) ?L ! ?t = ?L ! ?t" by simp
    finally have prev: "comb ! nat (i - 1) = kk # ?L ! ?t"
      unfolding t(3) .
    have "?L ! ?t \<in> set ?L" using t(1) by simp
    then have lt: "length (?L ! ?t) = k" using combs_member by blast
    have nx: "next_comb n 0 (?L ! ?t) = Some (?L ! Suc ?t)"
      by (rule chain_nth [OF combs_chain t(1)])
    have "successor_loop n kk (kk # ?L ! ?t) kk ?c0 =
        (case next_comb n (nat (kk - kk)) (take (nat kk) (tl (kk # ?L ! ?t))) of
           Some d \<Rightarrow> kk # d | None \<Rightarrow> ?c0)"
      using lt "1.prems"(1) by (intro successor_loop_next) simp_all
    then have row: "successor_loop n kk (comb ! nat (i - 1)) kk ?c0 = kk # ?L ! Suc ?t"
      unfolding prev using lt nx "1.prems"(1) by simp
    have "take (Suc (Suc ?t)) ?L = take (Suc ?t) ?L @ [?L ! Suc ?t]"
      using t(1) by (rule take_Suc_conv_app_nth)
    moreover have "nat (i + 1) - 1 = Suc (Suc ?t)"
      using "1.prems"(4) by simp
    ultimately have next_comb: "comb @ [kk # ?L ! Suc ?t]
        = [] # map ((#) kk) (take (nat (i + 1) - 1) ?L)"
      unfolding cm by simp
    have "comb_loop malloc n kk binom i comb
        = comb_loop malloc n kk binom (i + 1) (comb @ [kk # ?L ! Suc ?t])"
      using True c0 row by (subst comb_loop.simps) simp
    also have "\<dots> = Returns ([] # map ((#) kk) ?L)"
      using "1.IH" [OF True c0 "1.prems"(1,2,3) _ _ ] True "1.prems"(4) next_comb row by simp
    finally show ?thesis .
  qed
qed

lemma Combinations_rows:
  assumes "k \<le> n" and "int k * int (n choose k) \<le> INT_MAX"
    and "malloc (unsigned (int (n choose k) + 1) * sizeof_ptr)"
    and "malloc (unsigned (int k + 1) * sizeof_int)"
  shows "Combinations malloc (int n) (int k)
         = Returns ([] # map ((#) (int k)) (combs 1 (int n) k))"
proof -
  let ?L = "combs 1 (int n) k"
  have len: "length ?L = n choose k" by (simp add: combs_length)
  have B: "Binomial (int n) (int k) = Returns (int (n choose k))"
    by (rule Binomial_exact [OF assms(1,2)])
  have pos: "0 < n choose k" using assms(1) by simp
  have "int (n choose k) \<le> INT_MAX"
  proof (cases k)
    case 0
    then show ?thesis by (simp add: INT_MAX_def)
  next
    case (Suc j)
    have "int (n choose k) * 1 \<le> int (n choose k) * int k"
      using Suc by (intro mult_left_mono) simp_all
    then show ?thesis using assms(2) by (simp add: mult.commute)
  qed
  then have u: "\<not> unsigned (int (n choose k) + 1) < 2"
    using pos by (simp add: unsigned_def INT_MAX_def nat_less_iff)
  have c0: "IntList malloc (int k) = Returns (int k # replicate k 0)"
    using IntList_row [of "int k" malloc] assms(4) by simp
  have f: "first_loop (int k) 1 (int k # replicate k 0) = int k # [1..int k]"
    using first_row [of "int k"] by simp
  have "int k \<le> int n + 1 - 1" using assms(1) by simp
  from combs_hd_last [OF this] have ne: "?L \<noteq> []" and hd: "hd ?L = [1..int k]"
    by simp_all
  then have "take (Suc 0) ?L = [[1..int k]]"
    by (cases ?L) simp_all
  then have t1: "[[], int k # [1..int k]] = [] # map ((#) (int k)) (take (nat 2 - 1) ?L)"
    by simp
  have "Suc 0 \<le> n choose k" using pos by (simp only: Suc_le_eq)
  then have le: "(2::int) \<le> int (length ?L) + 1" unfolding len by simp
  have "comb_loop malloc (int n) (int k) (int (length ?L)) 2 [[], int k # [1..int k]]
        = Returns ([] # map ((#) (int k)) ?L)"
    using assms(4) le t1
    by (intro comb_loop_rows [where k = k and malloc = malloc]) simp_all
  then have "comb_loop malloc (int n) (int k) (int (n choose k)) 2 [[], int k # [1..int k]]
        = Returns ([] # map ((#) (int k)) ?L)"
    unfolding len .
  then show ?thesis
    unfolding Combinations_def using assms(1,3) B u c0 f by simp
qed

text \<open>
  C5. Where the products of \<^verbatim>\<open>Binomial\<close> stay in the range of \<^verbatim>\<open>int\<close> and the
  allocations succeed, \<^verbatim>\<open>Combinations(n,k)\<close> returns the table whose cells \<open>1, 2, ...\<close>
  are the rows \<open>k # c\<close> for the strictly increasing sequences \<open>c\<close> of length \<open>k\<close> over
  \<open>{1..n}\<close>, in lexicographic order: \<open>Binomial(n,k)\<close> rows, without repetition, one for
  every \<open>k\<close>-subset of \<open>{1..n}\<close>.
\<close>

theorem Combinations_enumerates:
  assumes "k \<le> n" and "int k * int (n choose k) \<le> INT_MAX"
    and "malloc (unsigned (int (n choose k) + 1) * sizeof_ptr)"
    and "malloc (unsigned (int k + 1) * sizeof_int)"
  shows "\<exists>rows. Combinations malloc (int n) (int k) = Returns ([] # rows)
       \<and> rows = map ((#) (int k)) (combs 1 (int n) k)
       \<and> Binomial (int n) (int k) = Returns (int (length rows))
       \<and> (\<forall>c\<in>set rows. length c = k + 1 \<and> Length c = int k
             \<and> sorted_wrt (<) (tl c) \<and> set (tl c) \<subseteq> {1..int n})
       \<and> distinct rows
       \<and> (\<lambda>c. set (tl c)) ` set rows = {S. S \<subseteq> {1..int n} \<and> card S = k}
       \<and> sorted_wrt (<) (map tl rows)"
proof -
  let ?L = "combs 1 (int n) k"
  let ?rows = "map ((#) (int k)) ?L"
  have a: "Combinations malloc (int n) (int k) = Returns ([] # ?rows)"
    by (rule Combinations_rows [OF assms])
  have b: "Binomial (int n) (int k) = Returns (int (length ?rows))"
    using Binomial_exact [OF assms(1,2)] by (simp add: combs_length)
  have c: "\<forall>c\<in>set ?rows. length c = k + 1 \<and> Length c = int k
             \<and> sorted_wrt (<) (tl c) \<and> set (tl c) \<subseteq> {1..int n}"
    using combs_member [of _ 1 "int n" k] by (auto simp: Length_def)
  have tl: "map tl ?rows = ?L" by (simp add: comp_def)
  have lex: "sorted_wrt (<) ?L" by (rule combs_lex_sorted)
  then have "distinct ?L" by (simp add: strict_sorted_iff)
  then have d: "distinct ?rows" by (simp add: distinct_map)
  have "(\<lambda>c. set (tl c)) ` set ?rows = set ` set ?L"
    by (simp add: image_image)
  also have "\<dots> = {S. S \<subseteq> {1..int n} \<and> card S = k}"
  proof (intro set_eqI iffI)
    fix S assume "S \<in> set ` set ?L"
    then obtain xs where xs: "xs \<in> set ?L" "S = set xs" by blast
    from combs_member [OF xs(1)] have m: "length xs = k" "sorted_wrt (<) xs" "set xs \<subseteq> {1..int n}"
      by simp_all
    then have "distinct xs" by (simp add: strict_sorted_iff)
    then have "card (set xs) = k" using m(1) by (simp add: distinct_card)
    then show "S \<in> {S. S \<subseteq> {1..int n} \<and> card S = k}" using m xs by simp
  next
    fix S assume "S \<in> {S. S \<subseteq> {1..int n} \<and> card S = k}"
    then have S: "S \<subseteq> {1..int n}" "card S = k" by simp_all
    then have fin: "finite S" using finite_subset by blast
    let ?xs = "sorted_list_of_set S"
    have "length ?xs = k" "sorted_wrt (<) ?xs" "set ?xs = S"
      using fin S by simp_all
    then have "?xs \<in> set ?L" using S by (intro combs_complete) simp_all
    then show "S \<in> set ` set ?L" using \<open>set ?xs = S\<close> by blast
  qed
  finally have e: "(\<lambda>c. set (tl c)) ` set ?rows = {S. S \<subseteq> {1..int n} \<and> card S = k}" .
  have lex': "sorted_wrt (<) (map tl ?rows)" unfolding tl by (rule lex)
  show ?thesis
    by (intro exI [of _ ?rows] conjI a refl b c d e lex')
qed

lemma combs_5_2:
  "combs 1 5 2 = [[1, 2], [1, 3], [1, 4], [1, 5], [2, 3], [2, 4], [2, 5], [3, 4], [3, 5], [4, 5]]"
  by (simp add: eval_nat_numeral combs_Suc combs_none)

theorem Combinations_enumerates_witness:
  "Combinations (\<lambda>s. True) 5 2
   = Returns [[], [2, 1, 2], [2, 1, 3], [2, 1, 4], [2, 1, 5], [2, 2, 3], [2, 2, 4], [2, 2, 5],
              [2, 3, 4], [2, 3, 5], [2, 4, 5]]
 \<and> Binomial 5 2 = Returns 10"
proof -
  have c: "(5::nat) choose 2 = 10"
    by (simp add: numeral_eq_Suc)
  have h1: "(2::nat) \<le> 5" by simp
  have h2: "int 2 * int ((5::nat) choose 2) \<le> INT_MAX"
    by (simp add: c INT_MAX_def)
  have h3: "(\<lambda>s. True) (unsigned (int ((5::nat) choose 2) + 1) * sizeof_ptr)"
    and h4: "(\<lambda>s. True) (unsigned (int 2 + 1) * sizeof_int)"
    by simp_all
  from Combinations_enumerates [of 2 5 "\<lambda>s. True", OF h1 h2 h3 h4]
  show ?thesis by (auto simp: combs_5_2)
qed

theorem Combinations_enumerates_counterexample:
  "Combinations (\<lambda>s. True) 30 15
   = Returns [[], [15, 1, 2, 3, 4, 5, 6, 7, 8, 9, 10, 11, 12, 13, 14, 15]]
 \<and> Combinations (\<lambda>s. False) 30 15 = Exits Combinations_malloc_failed"
proof -
  let ?row = "[15, 1, 2, 3, 4, 5, 6, 7, 8, 9, 10, 11, 12, 13, 14, 15] :: intlist"
  have B: "Binomial 30 15 = Returns (- 131213633)"
    by (simp add: Binomial.simps wrap_int_def c_div_def)
  have I: "IntList (\<lambda>s. True) 15 = Returns (15 # replicate (nat 15) 0)"
    by (rule IntList_row) simp_all
  have F: "first_loop 15 1 (15 # replicate (nat 15) 0) = 15 # [1..15]"
    by (rule first_row) simp
  have "[1..15] = (1::int) # [1 + 1..15]" by (rule upto_rec1) simp
  then have U: "15 # [1..15] = ?row" by simp
  have L: "comb_loop (\<lambda>s. True) 30 15 (- 131213633) 2 [[], ?row] = Returns [[], ?row]"
    by (subst comb_loop.simps) simp
  have u: "\<not> unsigned (- 131213633 + 1) < 2" by (simp add: unsigned_def)
  have "Combinations (\<lambda>s. True) 30 15 = Returns [[], ?row]"
    unfolding Combinations_def B obind.simps I F U using u L by simp
  moreover have "Combinations (\<lambda>s. False) 30 15 = Exits Combinations_malloc_failed"
    unfolding Combinations_def B by simp
  ultimately show ?thesis by simp
qed

section \<open>The documented contract of TransversalProperty\<close>

text \<open>
  The comment at the head of \<^verbatim>\<open>TransversalProperty\<close> (lines 116-148) is a contract in
  terms of a group orbit and of partitions. Its notions are written out here on the
  arrays of the code.

  \<open>cosetrep_image cosetreps p x\<close> is \<^verbatim>\<open>cosetreps[p][x]\<close>, the image of the point \<open>x\<close> under
  the coset representative that maps 1 to \<open>p\<close>. \<open>candidate\<close> is the k-subset that the scan
  examines for the point \<open>p\<close> and the adjacency entry \<open>i\<close>: \<open>p\<close> together with the images of
  \<^verbatim>\<open>comb[adj[i]][1..k-1]\<close>. \<open>represented\<close> is the set of all of them, the orbit that
  \<^verbatim>\<open>(cosetreps, adj)\<close> stands for.

  \<open>transitive_group n G\<close>: the maps of \<open>G\<close> permute \<open>{1..n}\<close>, contain the identity, are
  closed under composition and inverses (all read on \<open>{1..n}\<close>), and some map of \<open>G\<close> takes
  any point to any other. \<open>genuine_orbit\<close>: there are such a group and a k-subset \<open>K0\<close> with
  every row of \<^verbatim>\<open>cosetreps\<close> a map of the group taking 1 to its index, the represented
  sets exactly the images of \<open>K0\<close>, and \<^verbatim>\<open>adj\<close> listing exactly the rows of \<^verbatim>\<open>comb\<close> that
  extend the point 1 to a set of the orbit.

  \<open>completions n k A R\<close> are the partitions \<open>Q\<close> of the contract: labels in \<open>1..k\<close>, every
  point of \<open>P[1..k-1]\<close> kept in its part, no point of \<open>S\<close> in the last part, and
  \<open>|Q[k]| \<ge> n/k\<close> (written \<open>n \<le> k * |Q[k]|\<close>). \<open>transversal k Q K\<close>: \<open>K\<close> meets every part of
  \<open>Q\<close> in exactly one point. \<open>guaranteed\<close>: every completion has a transversal among the
  represented sets; this is what the contract says the returned boolean is.

  \<open>no_uncovered_witness\<close> is the last supposition of the contract: a represented set that
  avoids \<^verbatim>\<open>newpoint\<close> and meets each of \<open>P[1..k-1]\<close> in one point has its remaining point in
  \<open>S\<close>. \<open>preconditions\<close> collects everything the contract supposes; the size bound
  \<open>|P[1]|+...+|P[k-1]| \<le> ((k-1)*n)/k\<close> is written without the division.
\<close>

definition cosetrep_image :: "intlist list \<Rightarrow> int \<Rightarrow> int \<Rightarrow> int" where
  "cosetrep_image cosetreps p x = cosetreps ! nat p ! nat x"

definition candidate ::
  "int \<Rightarrow> intlist list \<Rightarrow> intlist \<Rightarrow> intlist list \<Rightarrow> int \<Rightarrow> int \<Rightarrow> int set" where
  "candidate k cosetreps adj comb p i =
     insert p ((\<lambda>j. cosetrep_image cosetreps p (comb ! nat (adj ! nat i) ! nat j)) ` {1..k - 1})"

definition represented ::
  "int \<Rightarrow> int \<Rightarrow> intlist list \<Rightarrow> intlist \<Rightarrow> intlist list \<Rightarrow> int set set" where
  "represented n k cosetreps adj comb =
     (\<lambda>(p, i). candidate k cosetreps adj comb p i) ` ({1..n} \<times> {1..Length adj})"

definition transitive_group :: "int \<Rightarrow> (int \<Rightarrow> int) set \<Rightarrow> bool" where
  "transitive_group n G =
     ((\<forall>g\<in>G. g ` {1..n} = {1..n})
      \<and> (\<exists>e\<in>G. \<forall>x\<in>{1..n}. e x = x)
      \<and> (\<forall>g\<in>G. \<forall>h\<in>G. \<exists>f\<in>G. \<forall>x\<in>{1..n}. f x = g (h x))
      \<and> (\<forall>g\<in>G. \<exists>h\<in>G. \<forall>x\<in>{1..n}. h (g x) = x)
      \<and> (\<forall>x\<in>{1..n}. \<forall>y\<in>{1..n}. \<exists>g\<in>G. g x = y))"

definition genuine_orbit ::
  "int \<Rightarrow> int \<Rightarrow> intlist list \<Rightarrow> intlist \<Rightarrow> intlist list \<Rightarrow> bool" where
  "genuine_orbit n k cosetreps adj comb =
     (\<exists>G K0. transitive_group n G \<and> K0 \<subseteq> {1..n} \<and> card K0 = nat k
        \<and> (\<forall>p\<in>{1..n}. cosetrep_image cosetreps p 1 = p
              \<and> (\<exists>g\<in>G. \<forall>x\<in>{1..n}. g x = cosetrep_image cosetreps p x))
        \<and> represented n k cosetreps adj comb = (\<lambda>g. g ` K0) ` G
        \<and> (\<forall>m\<in>{1..int (length comb) - 1}.
              (m \<in> (\<lambda>i. adj ! nat i) ` {1..Length adj})
              = (1 \<notin> set (tl (comb ! nat m))
                 \<and> insert 1 (set (tl (comb ! nat m))) \<in> (\<lambda>g. g ` K0) ` G)))"

definition completions :: "int \<Rightarrow> int \<Rightarrow> intlist \<Rightarrow> bool list \<Rightarrow> intlist set" where
  "completions n k A R =
     {Q. length Q = length A
         \<and> (\<forall>p\<in>{1..n}. 1 \<le> Q ! nat p \<and> Q ! nat p \<le> k)
         \<and> (\<forall>p\<in>{1..n}. A ! nat p < k \<longrightarrow> Q ! nat p = A ! nat p)
         \<and> (\<forall>p\<in>{1..n}. R ! nat p \<longrightarrow> Q ! nat p \<noteq> k)
         \<and> n \<le> k * int (card {p\<in>{1..n}. Q ! nat p = k})}"

definition transversal :: "int \<Rightarrow> intlist \<Rightarrow> int set \<Rightarrow> bool" where
  "transversal k Q K = (\<forall>i\<in>{1..k}. card {p\<in>K. Q ! nat p = i} = 1)"

definition guaranteed ::
  "int \<Rightarrow> int \<Rightarrow> intlist list \<Rightarrow> intlist \<Rightarrow> intlist list \<Rightarrow> intlist \<Rightarrow> bool list \<Rightarrow> bool" where
  "guaranteed n k cosetreps adj comb A R =
     (\<forall>Q\<in>completions n k A R. \<exists>K\<in>represented n k cosetreps adj comb. transversal k Q K)"

definition no_uncovered_witness ::
  "int \<Rightarrow> int \<Rightarrow> intlist list \<Rightarrow> intlist \<Rightarrow> intlist list \<Rightarrow> intlist \<Rightarrow> bool list \<Rightarrow> int \<Rightarrow> bool" where
  "no_uncovered_witness n k cosetreps adj comb A R newpoint =
     (\<forall>K\<in>represented n k cosetreps adj comb.
        newpoint \<notin> K \<and> (\<forall>i\<in>{1..k - 1}. card {p\<in>K. A ! nat p = i} = 1) \<longrightarrow>
        (\<forall>p\<in>K. A ! nat p = k \<longrightarrow> R ! nat p))"

definition preconditions ::
  "int \<Rightarrow> int \<Rightarrow> intlist list \<Rightarrow> intlist \<Rightarrow> intlist list \<Rightarrow> intlist \<Rightarrow> bool list \<Rightarrow> int \<Rightarrow> bool" where
  "preconditions n k cosetreps adj comb A R newpoint =
     (1 < k \<and> genuine_orbit n k cosetreps adj comb
      \<and> wf_partition n k A
      \<and> int (card {p\<in>{1..n}. A ! nat p < k}) * k \<le> (k - 1) * n
      \<and> nat n < length R \<and> forced_in_last n k A R
      \<and> newpoint \<in> {1..n} \<and> A ! nat newpoint < k
      \<and> no_uncovered_witness n k cosetreps adj comb A R newpoint)"

text \<open>
  The cyclic group of order 4 on \<open>{1,2,3,4}\<close>, generated by the rotation \<open>(1 2 3 4)\<close>, and
  the orbit of \<open>{1,2}\<close>: the four edges of the 4-cycle. \<open>rotations\<close> is its \<^verbatim>\<open>cosetreps\<close>
  table (row \<open>p\<close> is the rotation taking 1 to \<open>p\<close>; the four rows are the whole group),
  \<open>singles\<close> is \<^verbatim>\<open>Combinations(4,1)\<close>, and the adjacency list of the orbit is \<open>[2, 4]\<close>: the
  point 1 is extended by 2 and by 4.
\<close>

definition rotations :: "intlist list" where
  "rotations = [[], [4, 1, 2, 3, 4], [4, 2, 3, 4, 1], [4, 3, 4, 1, 2], [4, 4, 1, 2, 3]]"

definition singles :: "intlist list" where
  "singles = [[], [1, 1], [1, 2], [1, 3], [1, 4]]"

lemma range_4: "{1..4::int} = {1, 2, 3, 4}"
  by auto

lemma range_2: "{1..2::int} = {1, 2}"
  by auto

lemma range_1: "{1..1::int} = {1}"
  by auto

lemma rotations_image:
  "cosetrep_image rotations 1 1 = 1" "cosetrep_image rotations 1 2 = 2"
  "cosetrep_image rotations 1 3 = 3" "cosetrep_image rotations 1 4 = 4"
  "cosetrep_image rotations 2 1 = 2" "cosetrep_image rotations 2 2 = 3"
  "cosetrep_image rotations 2 3 = 4" "cosetrep_image rotations 2 4 = 1"
  "cosetrep_image rotations 3 1 = 3" "cosetrep_image rotations 3 2 = 4"
  "cosetrep_image rotations 3 3 = 1" "cosetrep_image rotations 3 4 = 2"
  "cosetrep_image rotations 4 1 = 4" "cosetrep_image rotations 4 2 = 1"
  "cosetrep_image rotations 4 3 = 2" "cosetrep_image rotations 4 4 = 3"
  by (simp_all add: cosetrep_image_def rotations_def eval_nat_numeral)

lemma rotations_represented:
  "represented 4 2 rotations [2, 2, 4] singles = {{1, 2}, {2, 3}, {3, 4}, {1, 4}}"
  unfolding represented_def candidate_def Length_def
  by (simp add: range_4 range_2 range_1 rotations_image singles_def eval_nat_numeral
      insert_commute)

lemma rotations_group: "transitive_group 4 (cosetrep_image rotations ` {1..4})"
  unfolding transitive_group_def
  by (simp add: range_4 rotations_image insert_commute)

lemma rotations_orbit:
  "(\<lambda>g. g ` {1, 2}) ` (cosetrep_image rotations ` {1..4}) = {{1, 2}, {2, 3}, {3, 4}, {1, 4}}"
  by (simp add: range_4 rotations_image insert_commute)

lemma rotations_genuine_orbit: "genuine_orbit 4 2 rotations [2, 2, 4] singles"
  unfolding genuine_orbit_def
proof (intro exI [of _ "cosetrep_image rotations ` {1..4}"] exI [of _ "{1, 2}"] conjI)
  show "transitive_group 4 (cosetrep_image rotations ` {1..4})"
    by (rule rotations_group)
  show "{1, 2} \<subseteq> {1..4::int}" by simp
  show "card {1, 2::int} = nat 2" by simp
  show "\<forall>p\<in>{1..4}. cosetrep_image rotations p 1 = p
          \<and> (\<exists>g\<in>cosetrep_image rotations ` {1..4}. \<forall>x\<in>{1..4}. g x = cosetrep_image rotations p x)"
    by (simp add: range_4 rotations_image)
  show "represented 4 2 rotations [2, 2, 4] singles
        = (\<lambda>g. g ` {1, 2}) ` cosetrep_image rotations ` {1..4}"
    unfolding rotations_represented rotations_orbit ..
  show "\<forall>m\<in>{1..int (length singles) - 1}.
       (m \<in> (\<lambda>i. [2, 2, 4] ! nat i) ` {1..Length [2, 2, 4]})
       = (1 \<notin> set (tl (singles ! nat m))
          \<and> insert 1 (set (tl (singles ! nat m)))
              \<in> (\<lambda>g. g ` {1, 2}) ` cosetrep_image rotations ` {1..4})"
    unfolding rotations_orbit
    by (simp add: singles_def Length_def range_4 range_2 eval_nat_numeral doubleton_eq_iff)
qed

lemma singles_Combinations: "Combinations (\<lambda>s. True) 4 1 = Returns singles"
  by (simp add: Combinations_simps cell_simps singles_def)

lemma no_completion:
  "completions 4 2 [4, 1, 2, 2, 2] [False, False, True, True, True] = {}"
proof -
  have False
    if Q: "Q \<in> completions 4 2 [4, 1, 2, 2, 2] [False, False, True, True, True]" for Q
  proof -
    have a: "\<forall>p\<in>{1..4}. [4, 1, 2, 2, 2] ! nat p < (2::int)
                \<longrightarrow> Q ! nat p = [4, 1, 2, 2, 2] ! nat p"
      and r: "\<forall>p\<in>{1..4}. [False, False, True, True, True] ! nat p \<longrightarrow> Q ! nat p \<noteq> 2"
      and c: "4 \<le> 2 * int (card {p \<in> {1..4}. Q ! nat p = 2})"
      using Q unfolding completions_def by simp_all
    have "Q ! nat p \<noteq> 2" if "p \<in> {1..4}" for p
    proof -
      have "p = 1 \<or> p = 2 \<or> p = 3 \<or> p = 4" using that by auto
      then show ?thesis
        using a [rule_format, OF that] r [rule_format, OF that]
        by (auto simp: eval_nat_numeral)
    qed
    then have e: "{p \<in> {1..4}. Q ! nat p = 2} = {}" by blast
    show False using c unfolding e by simp
  qed
  then show ?thesis by blast
qed

lemma rotations_returns_false:
  "TransversalProperty 4 (\<lambda>s. True) 4 2 rotations [2, 2, 4] singles
     [4, 1, 2, 2, 2] [False, False, True, True, True] 1 = Returns (False, [4, 1, 1, 1, 1])"
  by (simp add: TransversalProperty_simps cell_simps rotations_def singles_def)

lemma rotations_preconditions:
  "preconditions 4 2 rotations [2, 2, 4] singles
     [4, 1, 2, 2, 2] [False, False, True, True, True] 1"
  unfolding preconditions_def
proof (intro conjI)
  show "genuine_orbit 4 2 rotations [2, 2, 4] singles"
    by (rule rotations_genuine_orbit)
  show "wf_partition 4 2 [4, 1, 2, 2, 2]"
    unfolding wf_partition_def by (auto simp: int_range_4 eval_nat_numeral)
  have "{p \<in> {1..4}. [4, 1, 2, 2, 2] ! nat p < (2::int)} = {1}"
    by (auto simp add: range_4)
  then show "int (card {p \<in> {1..4}. [4, 1, 2, 2, 2] ! nat p < (2::int)}) * 2 \<le> (2 - 1) * 4"
    by simp
  show "forced_in_last 4 2 [4, 1, 2, 2, 2] [False, False, True, True, True]"
    unfolding forced_in_last_def
  proof (intro allI impI)
    fix p :: int
    assume p: "1 \<le> p \<and> p \<le> 4 \<and> [False, False, True, True, True] ! nat p"
    then have "p = 1 \<or> p = 2 \<or> p = 3 \<or> p = 4" by arith
    then show "[4, 1, 2, 2, 2] ! nat p = (2::int)"
      using p by (auto simp: eval_nat_numeral)
  qed
  show "no_uncovered_witness 4 2 rotations [2, 2, 4] singles
          [4, 1, 2, 2, 2] [False, False, True, True, True] 1"
    unfolding no_uncovered_witness_def rotations_represented
    by (simp add: range_1)
qed simp_all

text \<open>
  Claim C1: for every \<open>n\<close> and \<open>k > 1\<close>, every orbit representation of a genuine orbit of a
  transitive group and every \<open>(A, R, newpoint)\<close> meeting the suppositions of the contract,
  \<^verbatim>\<open>TransversalProperty\<close> returns true if and only if every completion \<open>Q\<close> has a
  transversal in the orbit.

  The code does not keep this contract. On the cyclic group of order 4 with the orbit of
  \<open>{1,2}\<close>, \<open>k = 2\<close>, \<open>P[1] = {1}\<close>, \<open>S = P[2] = {2,3,4}\<close> and \<^verbatim>\<open>newpoint = 1\<close> every
  supposition holds: \<open>|P[1]| = 1 \<le> (1*4)/2\<close>, \<open>S\<close> lies in \<open>P[2]\<close>, \<open>A[1] = 1 < 2\<close>, and no
  set of the orbit that avoids the point 1 meets \<open>P[1]\<close>. No partition \<open>Q\<close> keeps the point
  1 in its first part, keeps 2, 3 and 4 out of its second part and has two points in
  the second part, so every completion has a transversal and the contract asks for
  true. The call returns false: the points 2 and 4 that the scan meets are in \<open>S\<close> already,
  so the test \<^verbatim>\<open>(Acount+Rnewcount)*k>(k-1)*n\<close>, made only when a point is added, is
  never made although \<open>(1+3)*2 > 1*4\<close>; the recursion then moves 2, 3 and 4 into the
  first part one after the other, and the last call finds no forced point.
\<close>

theorem TransversalProperty_contract_broken:
  "preconditions 4 2 rotations [2, 2, 4] singles [4, 1, 2, 2, 2] [False, False, True, True, True] 1
 \<and> Combinations (\<lambda>s. True) 4 1 = Returns singles
 \<and> guaranteed 4 2 rotations [2, 2, 4] singles [4, 1, 2, 2, 2] [False, False, True, True, True]
 \<and> TransversalProperty 4 (\<lambda>s. True) 4 2 rotations [2, 2, 4] singles
      [4, 1, 2, 2, 2] [False, False, True, True, True] 1 = Returns (False, [4, 1, 1, 1, 1])"
proof (intro conjI)
  show "guaranteed 4 2 rotations [2, 2, 4] singles [4, 1, 2, 2, 2] [False, False, True, True, True]"
    unfolding guaranteed_def no_completion by simp
qed (rule rotations_preconditions singles_Combinations rotations_returns_false)+

theorem TransversalProperty_contract_broken_witness:
  "TransversalProperty 4 (\<lambda>s. True) 4 2
     [[], [4, 1, 2, 3, 4], [4, 2, 3, 4, 1], [4, 3, 4, 1, 2], [4, 4, 1, 2, 3]] [2, 2, 4]
     [[], [1, 1], [1, 2], [1, 3], [1, 4]]
     [4, 1, 2, 2, 2] [False, False, True, True, True] 1 = Returns (False, [4, 1, 1, 1, 1])
 \<and> completions 4 2 [4, 1, 2, 2, 2] [False, False, True, True, True] = {}"
  using TransversalProperty_contract_broken no_completion
  unfolding rotations_def singles_def by blast

end
